theory Spec2Isabelle
  imports
    Main
    "HOL-Library.Char_ord"
    "HOL-Library.List_Lexorder"
    "HOL-Library.Product_Lexorder"
    "HOL-Library.Multiset"
    "HOL-Library.AList"
begin

section \<open>PTB reader: errors and results\<close>

text \<open>
  The exceptions that \<^verbatim>\<open>data/ptb_reader.py\<close> and the library calls it makes can raise.
  \<open>UnknownLevel\<close> is the \<^verbatim>\<open>Exception("Unknown level")\<close> of \<^verbatim>\<open>ptb_raw_data\<close>,
  \<open>ValueError\<close> the failed tuple unpacking of \<^verbatim>\<open>_build_vocab\<close>, \<open>KeyError\<close> a failed
  dictionary subscript, \<open>NotFound\<close> a file that cannot be opened,
  \<open>InvalidArgument\<close> the error of a tensor operation
  (\<^verbatim>\<open>tf.errors.InvalidArgumentError\<close>), and \<open>OverflowError\<close> the rejection of a Python
  integer that does not fit the \<^verbatim>\<open>int32\<close> tensor it is converted to.
\<close>

datatype error =
  UnknownLevel | ValueError | KeyError | NotFound | InvalidArgument | OverflowError

type_synonym 'a result = "error + 'a"

text \<open>Sequencing of fallible steps: the first exception ends the call.\<close>

definition and_then :: "'a result \<Rightarrow> ('a \<Rightarrow> 'b result) \<Rightarrow> 'b result" where
  "and_then r f = (case r of Inl e \<Rightarrow> Inl e | Inr v \<Rightarrow> f v)"

section \<open>The tensor operations used by the batch producer\<close>

text \<open>
  Tensors of rank one are lists, tensors of rank two are lists of rows. All integer
  tensors of \<^verbatim>\<open>ptb_producer\<close> are \<^verbatim>\<open>int32\<close>: a value is an \<open>int\<close> in the range of
  \<open>int32\<close>, and the result of an arithmetic operation is wrapped into that range.
\<close>

type_synonym 'a grid = "'a list list"

definition int32 :: "int \<Rightarrow> bool" where
  "int32 v \<longleftrightarrow> - 2147483648 \<le> v \<and> v < 2147483648"

definition wrap32 :: "int \<Rightarrow> int" where
  "wrap32 v = (v + 2147483648) mod 4294967296 - 2147483648"

text \<open>
  A Python integer that is an operand of a tensor operation, or an entry of a shape, a
  \<open>begin\<close> or a \<open>size\<close> list, is converted to an \<^verbatim>\<open>int32\<close> constant.
\<close>

definition tf_constant :: "int \<Rightarrow> int result" where
  "tf_constant v = (if int32 v then Inr v else Inl OverflowError)"

text \<open>
  \<^verbatim>\<open>tf.convert_to_tensor(raw_data, dtype=tf.int32)\<close> (lines 142 and 143): every element
  has to fit; so has the number of elements, which \<^verbatim>\<open>tf.size\<close> returns as an
  \<^verbatim>\<open>int32\<close>.
\<close>

definition convert_to_tensor :: "int list \<Rightarrow> int list result" where
  "convert_to_tensor xs =
     (if list_all int32 xs \<and> int32 (int (length xs)) then Inr xs else Inl OverflowError)"

text \<open>\<^verbatim>\<open>a // b\<close> on integer tensors: floor division; a zero divisor is a run-time error.\<close>

definition tf_floordiv :: "int \<Rightarrow> int \<Rightarrow> int result" where
  "tf_floordiv a b = (if b = 0 then Inl InvalidArgument else Inr (wrap32 (a div b)))"

text \<open>
  One dimension of \<^verbatim>\<open>tf.slice\<close>: \<open>begin\<close> and \<open>size\<close> against the extent \<open>dim\<close>. A size of
  \<open>-1\<close> stands for all remaining elements. The result is the number of elements taken.
\<close>

definition slice_extent :: "int \<Rightarrow> int \<Rightarrow> int \<Rightarrow> nat result" where
  "slice_extent dim b n =
     (let n' = (if n = - 1 then dim - b else n)
      in if 0 \<le> b \<and> 0 \<le> n' \<and> b + n' \<le> dim then Inr (nat n') else Inl InvalidArgument)"

text \<open>\<^verbatim>\<open>tf.slice(t, [b], [n])\<close> on a tensor of rank one.\<close>

definition tf_slice1 :: "'a list \<Rightarrow> int \<Rightarrow> int \<Rightarrow> 'a list result" where
  "tf_slice1 xs b n =
     and_then (slice_extent (int (length xs)) b n) (\<lambda>k. Inr (take k (drop (nat b) xs)))"

text \<open>
  \<^verbatim>\<open>tf.slice(t, [b0, b1], [n0, n1])\<close> on a tensor of rank two. A grid without rows
  has no columns to read.
\<close>

definition num_cols :: "'a grid \<Rightarrow> nat" where
  "num_cols g = (case g of [] \<Rightarrow> 0 | row # _ \<Rightarrow> length row)"

definition tf_slice2 :: "'a grid \<Rightarrow> int \<times> int \<Rightarrow> int \<times> int \<Rightarrow> 'a grid result" where
  "tf_slice2 g b n =
     and_then (slice_extent (int (length g)) (fst b) (fst n)) (\<lambda>k0.
     and_then (slice_extent (int (num_cols g)) (snd b) (snd n)) (\<lambda>k1.
       Inr (map (\<lambda>row. take k1 (drop (nat (snd b)) row)) (take k0 (drop (nat (fst b)) g)))))"

text \<open>
  \<^verbatim>\<open>tf.reshape(t, [r, c])\<close> of a tensor of rank one, row-major. One of the two extents
  may be \<open>-1\<close> and is then inferred from the number of elements, which the other extent
  must divide; otherwise both extents are non-negative and their product is the number
  of elements.
\<close>

definition rows_of :: "'a list \<Rightarrow> nat \<Rightarrow> nat \<Rightarrow> 'a grid" where
  "rows_of xs r c = map (\<lambda>i. take c (drop (i * c) xs)) [0..<r]"

definition tf_reshape2 :: "'a list \<Rightarrow> int \<Rightarrow> int \<Rightarrow> 'a grid result" where
  "tf_reshape2 xs r c =
     (let n = int (length xs) in
      if r = - 1 \<and> c = - 1 then Inl InvalidArgument
      else if r = - 1 then
        (if 0 < c \<and> n mod c = 0 then Inr (rows_of xs (nat (n div c)) (nat c))
         else Inl InvalidArgument)
      else if c = - 1 then
        (if 0 < r \<and> n mod r = 0 then Inr (rows_of xs (nat r) (nat (n div r)))
         else Inl InvalidArgument)
      else if 0 \<le> r \<and> 0 \<le> c \<and> r * c = n then Inr (rows_of xs (nat r) (nat c))
      else Inl InvalidArgument)"

text \<open>
  \<^verbatim>\<open>tf.train.range_input_producer(limit, shuffle=False)\<close> (line 157): a queue that is
  filled, epoch after epoch, with \<^verbatim>\<open>tf.range(limit)\<close> in order.
  \<open>range_input_producer limit\<close> is the content of one epoch. \<^verbatim>\<open>tf.range\<close> rejects a
  negative limit (it requires \<open>start \<le> limit\<close>); the limit 0 is accepted and enqueues
  nothing. \<open>dequeue q k\<close> is what the \<open>k\<close>-th evaluation of the \<^verbatim>\<open>dequeue()\<close> tensor
  yields (counting from zero): \<open>None\<close> when nothing is ever enqueued and the evaluation
  waits for ever.
\<close>

definition range_input_producer :: "int \<Rightarrow> int list result" where
  "range_input_producer limit =
     (if limit < 0 then Inl InvalidArgument else Inr (map int [0..<nat limit]))"

definition dequeue :: "int list \<Rightarrow> nat \<Rightarrow> int option" where
  "dequeue q k = (if q = [] then None else Some (q ! (k mod length q)))"

section \<open>The batch producer\<close>

text \<open>
  \<^verbatim>\<open>ptb_producer(raw_data, batch_size, num_steps)\<close> builds tensors; each tensor of the
  source is a definition here, named as the source names it. \<open>raw_data\<close>, \<open>batch_size\<close>
  and \<open>num_steps\<close> are the Python values passed in.
\<close>

definition data_len :: "int list \<Rightarrow> int result" where
  "data_len raw_data =
     and_then (convert_to_tensor raw_data) (\<lambda>t. Inr (int (length t)))"

definition batch_len :: "int list \<Rightarrow> int \<Rightarrow> int result" where
  "batch_len raw_data batch_size =
     and_then (data_len raw_data) (\<lambda>n.
     and_then (tf_constant batch_size) (\<lambda>b. tf_floordiv n b))"

definition rd :: "int list \<Rightarrow> int \<Rightarrow> int list result" where
  "rd raw_data batch_size =
     and_then (convert_to_tensor raw_data) (\<lambda>t.
     and_then (batch_len raw_data batch_size) (\<lambda>bl.
     and_then (tf_constant batch_size) (\<lambda>b. tf_slice1 t 0 (wrap32 (b * bl)))))"

definition data :: "int list \<Rightarrow> int \<Rightarrow> int grid result" where
  "data raw_data batch_size =
     and_then (batch_len raw_data batch_size) (\<lambda>bl.
     and_then (rd raw_data batch_size) (\<lambda>xs.
     and_then (tf_constant batch_size) (\<lambda>b. tf_reshape2 xs b bl)))"

text \<open>
  The assertion that \<^verbatim>\<open>epoch_size\<close> is positive is commented out in the source
  (lines 151 to 154), so \<^verbatim>\<open>epoch_size\<close> is the quotient and nothing else.
\<close>

definition epoch_size :: "int list \<Rightarrow> int \<Rightarrow> int \<Rightarrow> int result" where
  "epoch_size raw_data batch_size num_steps =
     and_then (batch_len raw_data batch_size) (\<lambda>bl.
     and_then (tf_constant num_steps) (\<lambda>n. tf_floordiv (wrap32 (bl - 1)) n))"

text \<open>The two slices of the source (lines 158 and 159) at window index \<open>i\<close>.\<close>

definition window :: "int list \<Rightarrow> int \<Rightarrow> int \<Rightarrow> int \<Rightarrow> (int grid \<times> int grid) result" where
  "window raw_data batch_size num_steps i =
     and_then (data raw_data batch_size) (\<lambda>g.
     and_then (tf_constant batch_size) (\<lambda>b.
     and_then (tf_constant num_steps) (\<lambda>n.
     and_then (tf_slice2 g (0, wrap32 (i * n)) (b, n)) (\<lambda>x.
     and_then (tf_slice2 g (0, wrap32 (wrap32 (i * n) + 1)) (b, n)) (\<lambda>y.
       Inr (x, y))))))"

text \<open>
  The \<open>k\<close>-th evaluation of the pair \<^verbatim>\<open>(x, y)\<close> that \<^verbatim>\<open>ptb_producer\<close> returns: an error
  of a conversion or of a tensor operation, \<open>Inr None\<close> when the index queue never
  delivers, or the window at the dequeued index.
\<close>

definition ptb_producer ::
  "int list \<Rightarrow> int \<Rightarrow> int \<Rightarrow> nat \<Rightarrow> (int grid \<times> int grid) option result" where
  "ptb_producer raw_data batch_size num_steps k =
     and_then (data raw_data batch_size) (\<lambda>g.
     and_then (epoch_size raw_data batch_size num_steps) (\<lambda>e.
     and_then (range_input_producer e) (\<lambda>q.
       case dequeue q k of
         None \<Rightarrow> Inr None
       | Some i \<Rightarrow>
           and_then (window raw_data batch_size num_steps i) (\<lambda>w. Inr (Some w)))))"

section \<open>Reading and tokenising text\<close>

text \<open>
  A text is the decoded content of a file, a \<open>string\<close>; a \<open>char\<close> stands for a code
  point below 256, which covers the ASCII corpus the reader is written for. The file
  system is a function from a path to the decoded content of the file, or to the error
  of opening or decoding it.
\<close>

type_synonym filesystem = "string \<Rightarrow> string result"

text \<open>
  \<^verbatim>\<open>s.replace(old, new)\<close>: the occurrences of \<open>old\<close> are replaced from left to right
  and do not overlap. With an empty \<open>old\<close>, Python puts \<open>new\<close> before every character
  and at the end.
\<close>

function py_replace :: "'a list \<Rightarrow> 'a list \<Rightarrow> 'a list \<Rightarrow> 'a list" where
  "py_replace old new s =
     (if old = [] then new @ concat (map (\<lambda>c. c # new) s)
      else if s = [] then []
      else if take (length old) s = old
        then new @ py_replace old new (drop (length old) s)
      else hd s # py_replace old new (tl s))"
  by pat_completeness auto
termination
  by (relation "measure (\<lambda>(old, new, s). length s)") auto

text \<open>The equation of \<open>py_replace\<close> rewrites its own right-hand side; it is used by hand only.\<close>

declare py_replace.simps [simp del]

text \<open>
  The whitespace of Python 2 \<^verbatim>\<open>unicode\<close> strings among the code points below 256:
  tab, line feed, vertical tab, form feed, carriage return, the four separators
  \<open>0x1C\<close> to \<open>0x1F\<close>, space, next line \<open>0x85\<close> and no-break space \<open>0xA0\<close>.
\<close>

definition isspace :: "char \<Rightarrow> bool" where
  "isspace c = (of_char c \<in> {9, 10, 11, 12, 13, 28, 29, 30, 31, 32, 133, 160 :: nat})"

text \<open>
  \<^verbatim>\<open>s.split()\<close> without arguments: the maximal runs of characters that are not
  whitespace. \<open>split_from w s\<close> scans \<open>s\<close> with the word \<open>w\<close> begun so far.
\<close>

fun split_from :: "string \<Rightarrow> string \<Rightarrow> string list" where
  "split_from w [] = (if w = [] then [] else [w])"
| "split_from w (c # cs) =
     (if isspace c then (if w = [] then split_from [] cs else w # split_from [] cs)
      else split_from (w @ [c]) cs)"

definition py_split :: "string \<Rightarrow> string list" where
  "py_split s = split_from [] s"

definition newline :: string where
  "newline = [CHR 0x0A]"

text \<open>The tokens of a decoded text in word mode and in character mode (lines 28, 33 and 34).\<close>

definition words_of :: "string \<Rightarrow> string list" where
  "words_of text = py_split (py_replace newline ''<eos>'' text)"

definition chars_of :: "string \<Rightarrow> string" where
  "chars_of text = py_replace ''<eos>'' ''+'' (py_replace newline ''<eos>'' text)"

definition read_words :: "filesystem \<Rightarrow> string \<Rightarrow> string list result" where
  "read_words fs filename = and_then (fs filename) (\<lambda>text. Inr (words_of text))"

definition read_chars :: "filesystem \<Rightarrow> string \<Rightarrow> string result" where
  "read_chars fs filename = and_then (fs filename) (\<lambda>text. Inr (chars_of text))"

section \<open>The vocabulary builder\<close>

text \<open>
  A dictionary is an association list with one pair for every key. \<open>counter_add\<close> is
  the step of \<^verbatim>\<open>collections.Counter\<close>: \<^verbatim>\<open>self[elem] = self.get(elem, 0) + 1\<close>.
\<close>

fun counter_add :: "('a \<times> nat) list \<Rightarrow> 'a \<Rightarrow> ('a \<times> nat) list" where
  "counter_add [] w = [(w, 1)]"
| "counter_add ((k, c) # kvs) w =
     (if k = w then (k, c + 1) # kvs else (k, c) # counter_add kvs w)"

definition Counter :: "'a list \<Rightarrow> ('a \<times> nat) list" where
  "Counter xs = foldl counter_add [] xs"

text \<open>\<^verbatim>\<open>dict(pairs)\<close>: the pairs are stored in turn, a later pair overwrites an earlier one.\<close>

definition dict :: "('k \<times> 'v) list \<Rightarrow> ('k \<times> 'v) list" where
  "dict ps = foldl (\<lambda>d p. AList.update (fst p) (snd p) d) [] ps"

text \<open>\<^verbatim>\<open>d[k]\<close> and \<^verbatim>\<open>k in d\<close>.\<close>

definition getitem :: "('k \<times> 'v) list \<Rightarrow> 'k \<Rightarrow> 'v result" where
  "getitem d k = (case map_of d k of None \<Rightarrow> Inl KeyError | Some v \<Rightarrow> Inr v)"

definition contains :: "('k \<times> 'v) list \<Rightarrow> 'k \<Rightarrow> bool" where
  "contains d k = (map_of d k \<noteq> None)"

text \<open>The sort key of the source: \<^verbatim>\<open>lambda x: (-x[1], x[0])\<close>.\<close>

definition count_key :: "'a \<times> nat \<Rightarrow> int \<times> 'a" where
  "count_key x = (- int (snd x), fst x)"

text \<open>
  Lines 41 to 45 of \<^verbatim>\<open>_build_vocab\<close> (and 51 to 55 of \<^verbatim>\<open>_build_char\<close>, the same
  code), from the list \<open>items\<close> that \<^verbatim>\<open>counter.items()\<close> returns. Python 2 enumerates a
  dictionary in an order of its own, so the list is a parameter. Unpacking
  \<^verbatim>\<open>words, _ = list(zip(*count_pairs))\<close> raises \<^verbatim>\<open>ValueError\<close> when there is no pair.
\<close>

definition vocab_of_items :: "('a::linorder \<times> nat) list \<Rightarrow> ('a \<times> nat) list result" where
  "vocab_of_items items =
     (let count_pairs = sort_key count_key items in
      case count_pairs of
        [] \<Rightarrow> Inl ValueError
      | _ # _ \<Rightarrow> (let words = map fst count_pairs in Inr (dict (zip words [0..<length words]))))"

definition build_vocab :: "filesystem \<Rightarrow> string \<Rightarrow> (string \<times> nat) list result" where
  "build_vocab fs filename =
     and_then (read_words fs filename) (\<lambda>data. vocab_of_items (Counter data))"

definition build_char :: "filesystem \<Rightarrow> string \<Rightarrow> (char \<times> nat) list result" where
  "build_char fs filename =
     and_then (read_chars fs filename) (\<lambda>data. vocab_of_items (Counter data))"

section \<open>Encoding\<close>

text \<open>
  The comprehension \<^verbatim>\<open>[word_to_id[word] for word in data if word in word_to_id]\<close>;
  the subscript is the one that raises \<^verbatim>\<open>KeyError\<close> on a missing key.
\<close>

fun encode :: "('a \<times> nat) list \<Rightarrow> 'a list \<Rightarrow> nat list result" where
  "encode d [] = Inr []"
| "encode d (w # ws) =
     (if contains d w
      then and_then (getitem d w) (\<lambda>i. and_then (encode d ws) (\<lambda>ids. Inr (i # ids)))
      else encode d ws)"

definition file_to_word_ids ::
  "filesystem \<Rightarrow> string \<Rightarrow> (string \<times> nat) list \<Rightarrow> nat list result" where
  "file_to_word_ids fs filename word_to_id =
     and_then (read_words fs filename) (\<lambda>data. encode word_to_id data)"

definition file_to_char_ids ::
  "filesystem \<Rightarrow> string \<Rightarrow> (char \<times> nat) list \<Rightarrow> nat list result" where
  "file_to_char_ids fs filename char_to_id =
     and_then (read_chars fs filename) (\<lambda>data. encode char_to_id data)"

section \<open>Loading the three splits\<close>

text \<open>\<^verbatim>\<open>os.path.join(a, b)\<close> on a POSIX system.\<close>

definition path_join :: "string \<Rightarrow> string \<Rightarrow> string" where
  "path_join a b =
     (if b \<noteq> [] \<and> hd b = CHR ''/'' then b
      else if a = [] \<or> last a = CHR ''/'' then a @ b
      else a @ ''/'' @ b)"

definition ptb_raw_data ::
  "filesystem \<Rightarrow> string \<Rightarrow> string \<Rightarrow> (nat list \<times> nat list \<times> nat list \<times> nat) result" where
  "ptb_raw_data fs data_path level =
     (if level \<noteq> ''word'' \<and> level \<noteq> ''char'' then Inl UnknownLevel
      else
        let train_path = path_join data_path ''ptb.train.txt'';
            valid_path = path_join data_path ''ptb.valid.txt'';
            test_path = path_join data_path ''ptb.test.txt''
        in
          if level = ''word'' then
            and_then (build_vocab fs train_path) (\<lambda>dictionary.
            and_then (file_to_word_ids fs train_path dictionary) (\<lambda>train_data.
            and_then (file_to_word_ids fs valid_path dictionary) (\<lambda>valid_data.
            and_then (file_to_word_ids fs test_path dictionary) (\<lambda>test_data.
              Inr (train_data, valid_data, test_data, length dictionary)))))
          else
            and_then (build_char fs train_path) (\<lambda>dictionary.
            and_then (file_to_char_ids fs train_path dictionary) (\<lambda>train_data.
            and_then (file_to_char_ids fs valid_path dictionary) (\<lambda>valid_data.
            and_then (file_to_char_ids fs test_path dictionary) (\<lambda>test_data.
              Inr (train_data, valid_data, test_data, length dictionary))))))"

section \<open>Facts about the tensor operations and the grid\<close>

lemma and_then_Inr [simp]: "and_then (Inr v) f = f v"
  by (simp add: and_then_def)

lemma and_then_Inl [simp]: "and_then (Inl e) f = Inl e"
  by (simp add: and_then_def)

lemma and_then_Inr_iff:
  "and_then r f = Inr v \<longleftrightarrow> (\<exists>u. r = Inr u \<and> f u = Inr v)"
  by (cases r) simp_all

lemma wrap32_id: "int32 v \<Longrightarrow> wrap32 v = v"
  by (simp add: int32_def wrap32_def)

lemma int32_between: "int32 lo \<Longrightarrow> int32 hi \<Longrightarrow> lo \<le> v \<Longrightarrow> v \<le> hi \<Longrightarrow> int32 v"
  by (simp add: int32_def)

lemma int32_small [simp]: "int32 0" "int32 1" "int32 (- 1)"
  by (simp_all add: int32_def)

lemma tf_constant_Inr_iff: "tf_constant v = Inr u \<longleftrightarrow> u = v \<and> int32 v"
  by (auto simp add: tf_constant_def)

lemma convert_to_tensor_Inr_iff:
  "convert_to_tensor xs = Inr t \<longleftrightarrow> t = xs \<and> list_all int32 xs \<and> int32 (int (length xs))"
  by (auto simp add: convert_to_tensor_def)

lemma truncated_length:
  assumes "0 < (bs::int)"
  shows "0 \<le> bs * (int n div bs)" and "bs * (int n div bs) \<le> int n"
proof -
  have "0 \<le> int n div bs" using assms by (simp add: pos_imp_zdiv_nonneg_iff)
  then show "0 \<le> bs * (int n div bs)" using assms by simp
  have "bs * (int n div bs) + int n mod bs = int n" by simp
  moreover have "0 \<le> int n mod bs" using assms by simp
  ultimately show "bs * (int n div bs) \<le> int n" by linarith
qed

lemma quotient_le:
  assumes "0 < (bs::int)"
  shows "0 \<le> int n div bs" and "int n div bs \<le> int n"
proof -
  show "0 \<le> int n div bs" using assms by (simp add: pos_imp_zdiv_nonneg_iff)
  have "int n div bs \<le> int n div 1" using assms by (intro zdiv_mono2) simp_all
  then show "int n div bs \<le> int n" by simp
qed

lemma int32_div:
  assumes "int32 a" and "- 1 \<le> a" and "b \<noteq> 0"
  shows "int32 (a div b)"
proof -
  consider "0 < b" | "b < 0" using assms(3) by linarith
  then show ?thesis
  proof cases
    case 1
    have "(- 1) div b \<le> a div b" using assms(2) 1 by (intro zdiv_mono1) simp_all
    moreover have "(- 1) div b = - 1" using 1 by (simp add: div_eq_minus1)
    moreover have "a div b \<le> max a 0"
    proof (cases "0 \<le> a")
      case True
      then have "a div b \<le> a div 1" using 1 by (intro zdiv_mono2) simp_all
      then show ?thesis by simp
    next
      case False
      then have "a div b \<le> 0" using 1 by (simp add: div_nonpos_pos_le0)
      then show ?thesis by simp
    qed
    ultimately have "- 1 \<le> a div b" and "a div b \<le> max a 0" by simp_all
    then show ?thesis using assms(1) unfolding int32_def max_def by (cases "a \<le> 0") auto
  next
    case 2
    show ?thesis
    proof (cases "0 \<le> a")
      case True
      let ?c = "- b"
      have c: "0 < ?c" using 2 by simp
      have q: "0 \<le> a div ?c" "a div ?c \<le> a"
      proof -
        show "0 \<le> a div ?c" using True c by (simp add: pos_imp_zdiv_nonneg_iff)
        have "a div ?c \<le> a div 1" using True c by (intro zdiv_mono2) simp_all
        then show "a div ?c \<le> a" by simp
      qed
      have "a div b = a div (- ?c)" by simp
      also have "\<dots> = (if a mod ?c = 0 then - (a div ?c) else - (a div ?c) - 1)"
        using c by (intro zdiv_zminus2_eq_if) simp
      finally have "- a - 1 \<le> a div b \<and> a div b \<le> 0" using q by (simp split: if_splits)
      then show ?thesis using assms(1) True by (simp add: int32_def)
    next
      case False
      then have a: "a = - 1" using assms(2) by simp
      have "(- 1) div b = 1 \<or> (- 1) div b = 0"
      proof (cases "b = - 1")
        case True then show ?thesis by simp
      next
        case False
        then have "b < - 1" using 2 by simp
        then show ?thesis by (simp add: div_neg_neg_trivial)
      qed
      then show ?thesis using a by auto
    qed
  qed
qed

lemma data_len_ok:
  "list_all int32 raw \<Longrightarrow> int32 (int (length raw)) \<Longrightarrow> data_len raw = Inr (int (length raw))"
  by (simp add: data_len_def convert_to_tensor_def)

lemma batch_len_pos:
  assumes "0 < bs" and "int32 bs" and "list_all int32 raw" and "int32 (int (length raw))"
  shows "batch_len raw bs = Inr (int (length raw) div bs)"
proof -
  have "int32 (int (length raw) div bs)"
    using quotient_le [OF assms(1), of "length raw"] assms(4)
    by (simp add: int32_def)
  then show ?thesis
    using assms by (simp add: batch_len_def data_len_ok tf_constant_def tf_floordiv_def wrap32_id)
qed

lemma batch_len_Inr:
  assumes "batch_len raw bs = Inr bl"
  shows "list_all int32 raw" and "int32 (int (length raw))" and "int32 bs" and "bs \<noteq> 0"
  using assms
  by (auto simp add: batch_len_def data_len_def and_then_Inr_iff convert_to_tensor_Inr_iff
      tf_constant_Inr_iff tf_floordiv_def split: if_splits)

lemma rd_pos:
  assumes "0 < bs" and "int32 bs" and "list_all int32 raw" and "int32 (int (length raw))"
  shows "rd raw bs = Inr (take (nat (bs * (int (length raw) div bs))) raw)"
proof -
  let ?n = "bs * (int (length raw) div bs)"
  have n: "0 \<le> ?n" "?n \<le> int (length raw)" using truncated_length [OF assms(1)] by blast+
  then have "int32 ?n" using assms(4) by (simp add: int32_def)
  then have w: "wrap32 ?n = ?n" by (rule wrap32_id)
  have "slice_extent (int (length raw)) 0 ?n = Inr (nat ?n)"
    using n by (simp add: slice_extent_def Let_def)
  then show ?thesis
    using assms
    by (simp add: rd_def batch_len_pos convert_to_tensor_def tf_constant_def tf_slice1_def w)
qed

lemma data_pos:
  assumes "0 < bs" and "int32 bs" and "list_all int32 raw" and "int32 (int (length raw))"
  shows "data raw bs =
    Inr (rows_of (take (nat (bs * (int (length raw) div bs))) raw)
           (nat bs) (nat (int (length raw) div bs)))"
proof -
  let ?bl = "int (length raw) div bs"
  let ?xs = "take (nat (bs * ?bl)) raw"
  have n: "0 \<le> bs * ?bl" "bs * ?bl \<le> int (length raw)"
    using truncated_length [OF assms(1)] by blast+
  have bl: "0 \<le> ?bl" using assms(1) by (simp add: pos_imp_zdiv_nonneg_iff)
  have len: "int (length ?xs) = bs * ?bl" using n by simp
  have "tf_reshape2 ?xs bs ?bl = Inr (rows_of ?xs (nat bs) (nat ?bl))"
    unfolding tf_reshape2_def Let_def len using assms(1) bl by auto
  then show ?thesis
    using assms by (simp add: data_def batch_len_pos rd_pos tf_constant_def)
qed

lemma data_Inr:
  assumes "data raw bs = Inr g"
  shows "list_all int32 raw" and "int32 (int (length raw))" and "int32 bs" and "bs \<noteq> 0"
proof -
  obtain bl where "batch_len raw bs = Inr bl"
    using assms by (auto simp add: data_def and_then_Inr_iff)
  then show "list_all int32 raw" and "int32 (int (length raw))" and "int32 bs" and "bs \<noteq> 0"
    using batch_len_Inr by blast+
qed

lemma epoch_size_pos:
  assumes "0 < bs" and "int32 bs" and "list_all int32 raw" and "int32 (int (length raw))"
    and "ns \<noteq> 0" and "int32 ns"
  shows "epoch_size raw bs ns = Inr ((int (length raw) div bs - 1) div ns)"
proof -
  let ?bl = "int (length raw) div bs"
  have q: "0 \<le> ?bl" "?bl \<le> int (length raw)" using quotient_le [OF assms(1)] by blast+
  have a: "int32 (?bl - 1)"
    using q assms(4) by (simp add: int32_def)
  have "int32 ((?bl - 1) div ns)" using a q(1) assms(5) by (intro int32_div) simp_all
  then show ?thesis
    using assms a
    by (simp add: epoch_size_def batch_len_pos tf_constant_def tf_floordiv_def wrap32_id)
qed

lemma epoch_size_Inr:
  assumes "epoch_size raw bs ns = Inr e"
  shows "int32 ns" and "ns \<noteq> 0" and "\<exists>bl. batch_len raw bs = Inr bl"
  using assms
  by (auto simp add: epoch_size_def and_then_Inr_iff tf_constant_Inr_iff tf_floordiv_def
      split: if_splits)

lemma tf_constant_ok: "int32 v \<Longrightarrow> tf_constant v = Inr v"
  by (simp add: tf_constant_def)

lemma length_rows_of [simp]: "length (rows_of xs r c) = r"
  by (simp add: rows_of_def)

lemma row_fits:
  assumes "i < r" "r * c \<le> n"
  shows "i * c + c \<le> (n::nat)"
proof -
  have "Suc i * c \<le> r * c" using assms(1) by (intro mult_le_mono1) simp
  then show ?thesis using assms(2) by simp
qed

lemma rows_of_row:
  "i < r \<Longrightarrow> rows_of xs r c ! i = take c (drop (i * c) xs)"
  by (simp add: rows_of_def)

lemma length_rows_of_row:
  assumes "i < r" "r * c \<le> length xs"
  shows "length (rows_of xs r c ! i) = c"
  using row_fits [OF assms] assms(1) by (simp add: rows_of_row)

lemma rows_of_nth:
  assumes "i < r" "j < c" "r * c \<le> length xs"
  shows "rows_of xs r c ! i ! j = xs ! (i * c + j)"
  using row_fits [OF assms(1,3)] assms(1,2) by (simp add: rows_of_row)

lemma num_cols_rows_of:
  assumes "0 < r" "r * c \<le> length xs"
  shows "num_cols (rows_of xs r c) = c"
proof -
  have "rows_of xs r c \<noteq> []" using assms(1) by (simp add: rows_of_def)
  then obtain row rest where g: "rows_of xs r c = row # rest" by (cases "rows_of xs r c") auto
  then have "row = rows_of xs r c ! 0" by simp
  then have "length row = c" using length_rows_of_row [OF assms] by simp
  then show ?thesis by (simp add: num_cols_def g)
qed

lemma window_fits_pos:
  assumes "0 < ns" "0 \<le> i" "i < (bl - 1) div ns"
  shows "i * ns + ns + 1 \<le> (bl::int)"
proof -
  have "i + 1 \<le> (bl - 1) div ns" using assms(3) by simp
  then have "(i + 1) * ns \<le> ((bl - 1) div ns) * ns"
    using assms(1) by (intro mult_right_mono) simp_all
  also have "\<dots> \<le> bl - 1"
  proof -
    have "(bl - 1) div ns * ns + (bl - 1) mod ns = bl - 1" by simp
    moreover have "0 \<le> (bl - 1) mod ns" using assms(1) by simp
    ultimately show ?thesis by linarith
  qed
  finally show ?thesis by (simp add: algebra_simps)
qed

lemma window_fits:
  assumes "0 \<le> bl" "0 \<le> i" "i < (bl - 1) div ns"
  shows "i * ns + ns + 1 \<le> (bl::int)"
proof -
  consider "0 < ns" | "ns = 0" | "ns < 0" by linarith
  then show ?thesis
  proof cases
    case 1
    then show ?thesis using window_fits_pos [OF _ assms(2,3)] by simp
  next
    case 2
    then show ?thesis using assms by simp
  next
    case 3
    have pos: "0 < (bl - 1) div ns" using assms(2,3) by linarith
    have "bl = 0"
    proof (rule ccontr)
      assume "bl \<noteq> 0"
      then have "0 \<le> bl - 1" using assms(1) by simp
      then have "(bl - 1) div ns \<le> 0" using 3 by (simp add: div_nonneg_neg_le0)
      then show False using pos by simp
    qed
    have "ns = - 1"
    proof (rule ccontr)
      assume "ns \<noteq> - 1"
      then have "ns < - 1" using 3 by simp
      then have "(- 1) div ns = 0" by (simp add: div_neg_neg_trivial)
      then show False using pos \<open>bl = 0\<close> by simp
    qed
    with \<open>bl = 0\<close> assms show ?thesis by simp
  qed
qed

lemma shifted_row:
  assumes "0 < n" "a + n + 1 \<le> length row"
  shows "take n (drop (Suc a) row) = tl (take n (drop a row)) @ [row ! (a + n)]"
proof -
  obtain m where n: "n = Suc m" using assms(1) by (cases n) auto
  have "take (Suc m) (drop (Suc a) row) = take m (drop (Suc a) row) @ [drop (Suc a) row ! m]"
    using assms(2) n by (simp add: take_Suc_conv_app_nth)
  moreover have "drop (Suc a) row ! m = row ! (a + n)" using assms(2) n by simp
  moreover have "tl (take n (drop a row)) = take m (drop (Suc a) row)"
    by (simp add: n tl_take drop_Suc tl_drop)
  ultimately show ?thesis using n by simp
qed

lemma slice_extent_ok:
  "0 \<le> b \<Longrightarrow> 0 \<le> n \<Longrightarrow> b + n \<le> dim \<Longrightarrow> slice_extent dim b n = Inr (nat n)"
  by (simp add: slice_extent_def)

lemma window_ok:
  assumes bs: "0 < bs" and ns: "0 < ns" and i: "0 \<le> i"
    and fits: "i * ns + ns + 1 \<le> int (length raw) div bs"
    and g: "data raw bs = Inr g"
    and ns32: "int32 ns"
  shows "window raw bs ns i =
     Inr (map (\<lambda>row. take (nat ns) (drop (nat (i * ns)) row)) g,
          map (\<lambda>row. take (nat ns) (drop (nat (i * ns + 1)) row)) g)"
proof -
  let ?bl = "int (length raw) div bs"
  let ?xs = "take (nat (bs * ?bl)) raw"
  note ok = data_Inr [OF g]
  have n: "0 \<le> bs * ?bl" "bs * ?bl \<le> int (length raw)"
    using truncated_length [OF bs] by blast+
  have bl: "0 \<le> ?bl" "?bl \<le> int (length raw)" using quotient_le [OF bs] by blast+
  have geq: "g = rows_of ?xs (nat bs) (nat ?bl)" using g data_pos [OF bs ok(3,1,2)] by simp
  have "nat bs * nat ?bl = nat (bs * ?bl)" using bs bl by (simp add: nat_mult_distrib)
  then have le: "nat bs * nat ?bl \<le> length ?xs" using n by simp
  have cols: "int (num_cols g) = ?bl"
    unfolding geq using num_cols_rows_of [OF _ le] bs bl by simp
  have rows: "int (length g) = bs" using bs by (simp add: geq)
  have i0: "0 \<le> i * ns" using i ns by simp
  have "int32 (i * ns)" using i0 fits bl(2) ns ok(2) by (simp add: int32_def)
  then have w0: "wrap32 (i * ns) = i * ns" by (rule wrap32_id)
  have "int32 (i * ns + 1)" using i0 fits bl(2) ns ok(2) by (simp add: int32_def)
  then have w1: "wrap32 (i * ns + 1) = i * ns + 1" by (rule wrap32_id)
  have r: "slice_extent (int (length g)) 0 bs = Inr (nat bs)"
    unfolding rows using bs by (intro slice_extent_ok) simp_all
  have cx: "slice_extent (int (num_cols g)) (i * ns) ns = Inr (nat ns)"
    unfolding cols using i0 ns fits by (intro slice_extent_ok) simp_all
  have cy: "slice_extent (int (num_cols g)) (i * ns + 1) ns = Inr (nat ns)"
    unfolding cols using i0 ns fits by (intro slice_extent_ok) simp_all
  have all: "take (nat bs) g = g" using rows by simp
  show ?thesis
    by (simp add: window_def g tf_constant_ok [OF ok(3)] tf_constant_ok [OF ns32] w0 w1
        tf_slice2_def r cx cy all)
qed

lemma range_input_producer_pos:
  "0 \<le> e \<Longrightarrow> range_input_producer e = Inr (map int [0..<nat e])"
  by (simp add: range_input_producer_def)

lemma dequeue_range:
  "0 < e \<Longrightarrow> dequeue (map int [0..<nat e]) k = Some (int (k mod nat e))"
  by (simp add: dequeue_def)

lemma dequeue_range_empty: "dequeue (map int [0..<nat 0]) k = None"
  by (simp add: dequeue_def)

section \<open>Properties of the batch producer\<close>

text \<open>
  Claim C5. For the encoded sequence \<open>[0, ..., 9]\<close> with \<^verbatim>\<open>batch_size = 2\<close> and
  \<^verbatim>\<open>num_steps = 3\<close>: \<^verbatim>\<open>batch_len\<close> is 5, \<^verbatim>\<open>epoch_size\<close> is 1, the grid is
  \<open>[[0,1,2,3,4],[5,6,7,8,9]]\<close>, the only window index of an epoch is 0, and window 0 has
  the input \<open>[[0,1,2],[5,6,7]]\<close> and the target \<open>[[1,2,3],[6,7,8]]\<close>, which is also what
  the first evaluation of the producer returns.
\<close>

theorem ptb_producer_example: "batch_len [0, 1, 2, 3, 4, 5, 6, 7, 8, 9] 2 = Inr 5
    \<and> epoch_size [0, 1, 2, 3, 4, 5, 6, 7, 8, 9] 2 3 = Inr 1
    \<and> data [0, 1, 2, 3, 4, 5, 6, 7, 8, 9] 2 = Inr [[0, 1, 2, 3, 4], [5, 6, 7, 8, 9]]
    \<and> range_input_producer 1 = Inr [0]
    \<and> window [0, 1, 2, 3, 4, 5, 6, 7, 8, 9] 2 3 0 = Inr ([[0, 1, 2], [5, 6, 7]], [[1, 2, 3], [6, 7, 8]])
    \<and> ptb_producer [0, 1, 2, 3, 4, 5, 6, 7, 8, 9] 2 3 0
        = Inr (Some ([[0, 1, 2], [5, 6, 7]], [[1, 2, 3], [6, 7, 8]]))"
  by code_simp

text \<open>
  Claim C1. The claim asks for an invalid-argument error when \<^verbatim>\<open>epoch_size\<close> is not
  positive, and so does the docstring of \<^verbatim>\<open>ptb_producer\<close>. The source has the assertion
  commented out: for the sequence \<open>[0, 1, 2]\<close> with \<^verbatim>\<open>batch_size = 2\<close> and
  \<^verbatim>\<open>num_steps = 3\<close>, \<^verbatim>\<open>epoch_size\<close> is 0, no error is raised, and no evaluation of the
  producer ever yields a window. (Only a negative \<^verbatim>\<open>epoch_size\<close> is rejected, by the range
  of the index queue.)
\<close>

theorem ptb_producer_empty_epoch_no_error: "epoch_size [0, 1, 2] 2 3 = Inr 0 \<and> ptb_producer [0, 1, 2] 2 3 k = Inr None"
proof -
  have i: "int32 2" "int32 3" "list_all int32 [0, 1, 2]" "int32 (int (length [0, 1, 2 :: int]))"
    by (simp_all add: int32_def)
  have e: "epoch_size [0, 1, 2] 2 3 = Inr 0"
    using epoch_size_pos [OF _ i(1,3,4) _ i(2)] by simp
  have "\<exists>g. data [0, 1, 2] 2 = Inr g" using data_pos [OF _ i(1,3,4)] by simp
  then show ?thesis
    using dequeue_range_empty by (auto simp add: ptb_producer_def e range_input_producer_pos)
qed

text \<open>
  Claim C2, amended. For a sequence of \<^verbatim>\<open>int32\<close> ids of length \<open>L\<close>, and a positive
  \<^verbatim>\<open>batch_size\<close> and a positive \<^verbatim>\<open>num_steps\<close> that fit \<^verbatim>\<open>int32\<close>: \<^verbatim>\<open>batch_len\<close> is
  \<open>L div batch_size\<close>; the sequence is cut to its first \<open>batch_size * batch_len\<close>
  elements; the grid has \<open>batch_size\<close> rows of \<open>batch_len\<close> elements, and row \<open>r\<close>,
  column \<open>c\<close> holds element \<open>r * batch_len + c\<close> of the sequence; \<^verbatim>\<open>epoch_size\<close> is
  \<open>(batch_len - 1) div num_steps\<close>. When the sequence has at least \<open>batch_size\<close>
  elements, the producer produces exactly \<^verbatim>\<open>epoch_size\<close> windows per epoch: the index
  queue of an epoch holds the \<^verbatim>\<open>epoch_size\<close> different indices \<open>0, ..., epoch_size - 1\<close>
  in order, the two slices succeed at each of them, and the \<open>k\<close>-th evaluation of the
  producer returns the window at index \<open>k mod epoch_size\<close> (none at all when
  \<^verbatim>\<open>epoch_size\<close> is 0).
\<close>

theorem ptb_producer_grid_and_epoch:
  assumes "0 < batch_size" and "0 < num_steps"
    and "int32 batch_size" and "int32 num_steps"
    and "list_all int32 raw_data" and "int32 (int (length raw_data))"
  shows "batch_len raw_data batch_size = Inr (int (length raw_data) div batch_size)
    \<and> (\<exists>xs. rd raw_data batch_size = Inr xs
          \<and> xs = take (nat (batch_size * (int (length raw_data) div batch_size))) raw_data
          \<and> int (length xs) = batch_size * (int (length raw_data) div batch_size))
    \<and> (\<exists>g. data raw_data batch_size = Inr g
          \<and> int (length g) = batch_size
          \<and> (\<forall>r < nat batch_size.
                int (length (g ! r)) = int (length raw_data) div batch_size
                \<and> (\<forall>c < nat (int (length raw_data) div batch_size).
                      g ! r ! c = raw_data ! (r * nat (int (length raw_data) div batch_size) + c))))
    \<and> epoch_size raw_data batch_size num_steps
         = Inr ((int (length raw_data) div batch_size - 1) div num_steps)
    \<and> (batch_size \<le> int (length raw_data) \<longrightarrow>
          (\<exists>q. range_input_producer ((int (length raw_data) div batch_size - 1) div num_steps)
                  = Inr q
             \<and> q = map int [0..<nat ((int (length raw_data) div batch_size - 1) div num_steps)]
             \<and> int (length q) = (int (length raw_data) div batch_size - 1) div num_steps
             \<and> distinct q)
          \<and> (\<forall>i. 0 \<le> i \<and> i < (int (length raw_data) div batch_size - 1) div num_steps \<longrightarrow>
                (\<exists>x y. window raw_data batch_size num_steps i = Inr (x, y)
                   \<and> (\<forall>k. int (k mod nat ((int (length raw_data) div batch_size - 1) div num_steps)) = i
                          \<longrightarrow> ptb_producer raw_data batch_size num_steps k = Inr (Some (x, y)))))
          \<and> (\<forall>k. ptb_producer raw_data batch_size num_steps k
                  = (if (int (length raw_data) div batch_size - 1) div num_steps = 0 then Inr None
                     else and_then
                       (window raw_data batch_size num_steps
                          (int (k mod nat ((int (length raw_data) div batch_size - 1) div num_steps))))
                       (\<lambda>w. Inr (Some w)))))"
proof -
  let ?bl = "int (length raw_data) div batch_size"
  let ?E = "(?bl - 1) div num_steps"
  let ?xs = "take (nat (batch_size * ?bl)) raw_data"
  let ?g = "rows_of ?xs (nat batch_size) (nat ?bl)"
  note ok = assms(3,5,6)
  have n: "0 \<le> batch_size * ?bl" "batch_size * ?bl \<le> int (length raw_data)"
    using truncated_length [OF assms(1)] by blast+
  have bl: "0 \<le> ?bl" using assms(1) by (simp add: pos_imp_zdiv_nonneg_iff)
  have "nat batch_size * nat ?bl = nat (batch_size * ?bl)"
    using assms(1) bl by (simp add: nat_mult_distrib)
  then have le: "nat batch_size * nat ?bl \<le> length ?xs" using n by simp
  have len: "int (length ?xs) = batch_size * ?bl" using n by simp
  have dg: "data raw_data batch_size = Inr ?g" using data_pos [OF assms(1) ok] .
  have es: "epoch_size raw_data batch_size num_steps = Inr ?E"
    using epoch_size_pos [OF assms(1) ok _ assms(4)] assms(2) by simp
  have rows: "\<forall>r < nat batch_size. int (length (?g ! r)) = ?bl
      \<and> (\<forall>c < nat ?bl. ?g ! r ! c = raw_data ! (r * nat ?bl + c))"
  proof (intro allI impI conjI)
    fix r assume r: "r < nat batch_size"
    show "int (length (?g ! r)) = ?bl"
      using length_rows_of_row [OF r le] bl by simp
    fix c assume c: "c < nat ?bl"
    have "r * nat ?bl + c < nat (batch_size * ?bl)"
      using row_fits [OF r le] c n by simp
    then show "?g ! r ! c = raw_data ! (r * nat ?bl + c)"
      using rows_of_nth [OF r c le] by simp
  qed
  have grid: "\<exists>g. data raw_data batch_size = Inr g \<and> int (length g) = batch_size
      \<and> (\<forall>r < nat batch_size. int (length (g ! r)) = ?bl
            \<and> (\<forall>c < nat ?bl. g ! r ! c = raw_data ! (r * nat ?bl + c)))"
    using rows assms(1) dg by (intro exI [of _ ?g]) simp
  have trunc: "\<exists>xs. rd raw_data batch_size = Inr xs \<and> xs = ?xs
      \<and> int (length xs) = batch_size * ?bl"
    using rd_pos [OF assms(1) ok] len by simp
  have prod: "(\<exists>q. range_input_producer ?E = Inr q \<and> q = map int [0..<nat ?E]
             \<and> int (length q) = ?E \<and> distinct q)
          \<and> (\<forall>i. 0 \<le> i \<and> i < ?E \<longrightarrow>
                (\<exists>x y. window raw_data batch_size num_steps i = Inr (x, y)
                   \<and> (\<forall>k. int (k mod nat ?E) = i
                          \<longrightarrow> ptb_producer raw_data batch_size num_steps k = Inr (Some (x, y)))))
          \<and> (\<forall>k. ptb_producer raw_data batch_size num_steps k
                  = (if ?E = 0 then Inr None
                     else and_then (window raw_data batch_size num_steps (int (k mod nat ?E)))
                            (\<lambda>w. Inr (Some w))))"
    if "batch_size \<le> int (length raw_data)"
  proof -
    have "0 < ?bl" using that assms(1) pos_imp_zdiv_pos_iff [of batch_size] by blast
    then have "1 \<le> ?bl" by simp
    then have E0: "0 \<le> ?E" using assms(2) by (simp add: pos_imp_zdiv_nonneg_iff)
    have q: "range_input_producer ?E = Inr (map int [0..<nat ?E])"
      using E0 by (rule range_input_producer_pos)
    have first: "\<exists>q. range_input_producer ?E = Inr q \<and> q = map int [0..<nat ?E]
             \<and> int (length q) = ?E \<and> distinct q"
      using q E0 by (simp add: distinct_map)
    have win: "\<exists>x y. window raw_data batch_size num_steps i = Inr (x, y)
                   \<and> (\<forall>k. int (k mod nat ?E) = i
                          \<longrightarrow> ptb_producer raw_data batch_size num_steps k = Inr (Some (x, y)))"
      if i: "0 \<le> i" "i < ?E" for i
    proof -
      have fits: "i * num_steps + num_steps + 1 \<le> ?bl"
        using window_fits_pos [OF assms(2) i] .
      obtain x y where w: "window raw_data batch_size num_steps i = Inr (x, y)"
        using window_ok [OF assms(1,2) i(1) fits dg assms(4)] by blast
      have pos: "0 < ?E" using i by simp
      have "\<forall>k. int (k mod nat ?E) = i
          \<longrightarrow> ptb_producer raw_data batch_size num_steps k = Inr (Some (x, y))"
        using pos by (simp add: ptb_producer_def dg es q dequeue_range w)
      then show ?thesis using w by blast
    qed
    have every: "ptb_producer raw_data batch_size num_steps k
                  = (if ?E = 0 then Inr None
                     else and_then (window raw_data batch_size num_steps (int (k mod nat ?E)))
                            (\<lambda>w. Inr (Some w)))" for k
    proof (cases "?E = 0")
      case True
      then show ?thesis
        using dequeue_range_empty by (simp add: ptb_producer_def dg es range_input_producer_pos)
    next
      case False
      then have pos: "0 < ?E" using E0 by simp
      show ?thesis
        using False pos by (simp add: ptb_producer_def dg es q dequeue_range)
    qed
    show ?thesis using first win every by blast
  qed
  show ?thesis
    using grid trunc prod es batch_len_pos [OF assms(1) ok] by blast
qed

text \<open>The amended claim at the sequence \<open>[0, ..., 9]\<close>, two rows, three steps: one window per epoch.\<close>

theorem ptb_producer_grid_and_epoch_witness:
  "(0::int) < 2 \<and> (0::int) < 3 \<and> int32 2 \<and> int32 3
   \<and> list_all int32 [0, 1, 2, 3, 4, 5, 6, 7, 8, 9]
   \<and> int32 (int (length [0, 1, 2, 3, 4, 5, 6, 7, 8, 9 :: int]))
   \<and> (2::int) \<le> int (length [0, 1, 2, 3, 4, 5, 6, 7, 8, 9 :: int])
   \<and> batch_len [0, 1, 2, 3, 4, 5, 6, 7, 8, 9] 2 = Inr 5
   \<and> epoch_size [0, 1, 2, 3, 4, 5, 6, 7, 8, 9] 2 3 = Inr 1
   \<and> range_input_producer 1 = Inr [0]
   \<and> (\<exists>x y. window [0, 1, 2, 3, 4, 5, 6, 7, 8, 9] 2 3 0 = Inr (x, y)
         \<and> ptb_producer [0, 1, 2, 3, 4, 5, 6, 7, 8, 9] 2 3 0 = Inr (Some (x, y))
         \<and> ptb_producer [0, 1, 2, 3, 4, 5, 6, 7, 8, 9] 2 3 1 = Inr (Some (x, y)))"
proof -
  have i: "int32 2" "int32 3" "list_all int32 [0, 1, 2, 3, 4, 5, 6, 7, 8, 9]"
    "int32 (int (length [0, 1, 2, 3, 4, 5, 6, 7, 8, 9 :: int]))"
    by (simp_all add: int32_def)
  have v: "(int (length [0, 1, 2, 3, 4, 5, 6, 7, 8, 9 :: int]) div 2 - 1) div 3 = 1" by simp
  have l: "(2::int) \<le> int (length [0, 1, 2, 3, 4, 5, 6, 7, 8, 9 :: int])" by simp
  have p: "(0::int) < 2" "(0::int) < 3" by simp_all
  note t = ptb_producer_grid_and_epoch [OF p i, unfolded v]
  have b: "batch_len [0, 1, 2, 3, 4, 5, 6, 7, 8, 9] 2 = Inr 5" using t by simp
  have e: "epoch_size [0, 1, 2, 3, 4, 5, 6, 7, 8, 9] 2 3 = Inr 1" using t by simp
  have q: "range_input_producer 1 = Inr [0]" using t by simp
  have "\<forall>i. 0 \<le> i \<and> i < 1 \<longrightarrow>
      (\<exists>x y. window [0, 1, 2, 3, 4, 5, 6, 7, 8, 9] 2 3 i = Inr (x, y)
         \<and> (\<forall>k. int (k mod nat 1) = i
               \<longrightarrow> ptb_producer [0, 1, 2, 3, 4, 5, 6, 7, 8, 9] 2 3 k = Inr (Some (x, y))))"
    using t l by blast
  then have "\<exists>x y. window [0, 1, 2, 3, 4, 5, 6, 7, 8, 9] 2 3 0 = Inr (x, y)
         \<and> (\<forall>k. int (k mod nat 1) = 0
               \<longrightarrow> ptb_producer [0, 1, 2, 3, 4, 5, 6, 7, 8, 9] 2 3 k = Inr (Some (x, y)))"
    by (rule allE [of _ 0]) simp
  then have w: "\<exists>x y. window [0, 1, 2, 3, 4, 5, 6, 7, 8, 9] 2 3 0 = Inr (x, y)
         \<and> ptb_producer [0, 1, 2, 3, 4, 5, 6, 7, 8, 9] 2 3 0 = Inr (Some (x, y))
         \<and> ptb_producer [0, 1, 2, 3, 4, 5, 6, 7, 8, 9] 2 3 1 = Inr (Some (x, y))"
    by auto
  show ?thesis using i b e q w by simp
qed

text \<open>
  The claim as stated, for every length, fails on a sequence shorter than
  \<^verbatim>\<open>batch_size\<close>: for \<open>[7]\<close> with \<^verbatim>\<open>batch_size = 2\<close> and \<^verbatim>\<open>num_steps = 1\<close> the quotient
  \<open>(batch_len - 1) div num_steps\<close> is \<open>-1\<close>, the range of the index queue is rejected
  and the producer produces no window but an error.
\<close>

theorem ptb_producer_window_count_counterexample:
  "epoch_size [7] 2 1 = Inr (- 1)
   \<and> (int (length [7 :: int]) div 2 - 1) div 1 = - 1
   \<and> range_input_producer (- 1) = Inl InvalidArgument
   \<and> ptb_producer [7] 2 1 0 = Inl InvalidArgument"
  by code_simp

text \<open>
  Claim C3. For a positive \<^verbatim>\<open>batch_size\<close> and \<^verbatim>\<open>num_steps\<close>, the grid \<open>g\<close> and every
  window index \<open>i\<close> from 0 to \<^verbatim>\<open>epoch_size - 1\<close>, both slices succeed; the input window
  holds the columns \<open>i * num_steps, ..., i * num_steps + num_steps - 1\<close> of every row of the
  grid and the target window the columns \<open>i * num_steps + 1, ..., i * num_steps + num_steps\<close>;
  each row of the target is the row of the input without its first element, followed by
  the grid's element in column \<open>i * num_steps + num_steps\<close>. Every evaluation of the
  producer whose position in its epoch is \<open>i\<close> returns this pair.
\<close>

theorem window_columns:
  assumes "0 < batch_size" and "0 < num_steps"
    and "data raw_data batch_size = Inr g"
    and "epoch_size raw_data batch_size num_steps = Inr e"
    and "0 \<le> i" and "i < e"
  shows "\<exists>x y. window raw_data batch_size num_steps i = Inr (x, y)
    \<and> int (length x) = batch_size \<and> int (length y) = batch_size
    \<and> (\<forall>r < nat batch_size.
          int (length (x ! r)) = num_steps \<and> int (length (y ! r)) = num_steps
          \<and> (\<forall>c < nat num_steps.
                x ! r ! c = g ! r ! (nat (i * num_steps) + c)
                \<and> y ! r ! c = g ! r ! (nat (i * num_steps) + 1 + c))
          \<and> y ! r = tl (x ! r) @ [g ! r ! (nat (i * num_steps + num_steps))])
    \<and> (\<forall>k. int (k mod nat e) = i \<longrightarrow>
          ptb_producer raw_data batch_size num_steps k = Inr (Some (x, y)))"
proof -
  let ?bl = "int (length raw_data) div batch_size"
  let ?xs = "take (nat (batch_size * ?bl)) raw_data"
  let ?a = "nat (i * num_steps)"
  let ?n = "nat num_steps"
  let ?x = "map (\<lambda>row. take ?n (drop ?a row)) g"
  let ?y = "map (\<lambda>row. take ?n (drop (nat (i * num_steps + 1)) row)) g"
  note ok = data_Inr [OF assms(3)]
  note ns32 = epoch_size_Inr(1) [OF assms(4)]
  have e: "e = (?bl - 1) div num_steps"
    using assms(1,2,4) epoch_size_pos [OF assms(1) ok(3,1,2) _ ns32] by simp
  have fits: "i * num_steps + num_steps + 1 \<le> ?bl"
    using window_fits_pos [OF assms(2,5)] assms(6) e by simp
  have w: "window raw_data batch_size num_steps i = Inr (?x, ?y)"
    using window_ok [OF assms(1,2,5) fits assms(3) ns32] .
  have n: "0 \<le> batch_size * ?bl" "batch_size * ?bl \<le> int (length raw_data)"
    using truncated_length [OF assms(1)] by blast+
  have bl: "0 \<le> ?bl" using assms(1) by (simp add: pos_imp_zdiv_nonneg_iff)
  have geq: "g = rows_of ?xs (nat batch_size) (nat ?bl)"
    using assms(3) data_pos [OF assms(1) ok(3,1,2)] by simp
  have "nat batch_size * nat ?bl = nat (batch_size * ?bl)"
    using assms(1) bl by (simp add: nat_mult_distrib)
  then have le: "nat batch_size * nat ?bl \<le> length ?xs" using n by simp
  have lg: "length g = nat batch_size" by (simp add: geq)
  have i0: "0 \<le> i * num_steps" using assms(2,5) by simp
  have suc: "nat (i * num_steps + 1) = Suc ?a" using i0 by (simp add: nat_add_distrib)
  have an: "nat (i * num_steps + num_steps) = ?a + ?n"
    using i0 assms(2) by (simp add: nat_add_distrib)
  have room: "?a + ?n + 1 \<le> nat ?bl" using fits i0 assms(2) by linarith
  have rows: "\<forall>r < nat batch_size.
          int (length (?x ! r)) = num_steps \<and> int (length (?y ! r)) = num_steps
          \<and> (\<forall>c < ?n. ?x ! r ! c = g ! r ! (?a + c) \<and> ?y ! r ! c = g ! r ! (?a + 1 + c))
          \<and> ?y ! r = tl (?x ! r) @ [g ! r ! (nat (i * num_steps + num_steps))]"
  proof (intro allI impI)
    fix r assume r: "r < nat batch_size"
    have lr: "length (g ! r) = nat ?bl"
      unfolding geq using length_rows_of_row [OF r le] .
    have room': "?a + ?n + 1 \<le> length (g ! r)" using room lr by simp
    have xr: "?x ! r = take ?n (drop ?a (g ! r))" using r lg by simp
    have yr: "?y ! r = take ?n (drop (Suc ?a) (g ! r))" using r lg suc by simp
    have "int (length (?x ! r)) = num_steps" unfolding xr using room' assms(2) by simp
    moreover have "int (length (?y ! r)) = num_steps" unfolding yr using room' assms(2) by simp
    moreover have "\<forall>c < ?n. ?x ! r ! c = g ! r ! (?a + c) \<and> ?y ! r ! c = g ! r ! (?a + 1 + c)"
      unfolding xr yr using room' by simp
    moreover have "?y ! r = tl (?x ! r) @ [g ! r ! (nat (i * num_steps + num_steps))]"
      unfolding xr yr an using shifted_row [OF _ room'] assms(2) by simp
    ultimately show "int (length (?x ! r)) = num_steps \<and> int (length (?y ! r)) = num_steps
          \<and> (\<forall>c < ?n. ?x ! r ! c = g ! r ! (?a + c) \<and> ?y ! r ! c = g ! r ! (?a + 1 + c))
          \<and> ?y ! r = tl (?x ! r) @ [g ! r ! (nat (i * num_steps + num_steps))]"
      by blast
  qed
  have pos: "0 < e" using assms(5,6) by simp
  have steps: "\<forall>k. int (k mod nat e) = i \<longrightarrow>
          ptb_producer raw_data batch_size num_steps k = Inr (Some (?x, ?y))"
    using pos by (simp add: ptb_producer_def assms(3,4) range_input_producer_pos dequeue_range w)
  have lens: "int (length ?x) = batch_size" "int (length ?y) = batch_size"
    using lg assms(1) by simp_all
  show ?thesis
    using w lens rows steps by (intro exI [of _ ?x] exI [of _ ?y]) blast
qed

text \<open>The windows of the sequence \<open>[0, ..., 9]\<close> in two rows of five, three steps.\<close>

theorem window_columns_witness:
  "(0::int) < 2 \<and> (0::int) < 3
   \<and> data [0, 1, 2, 3, 4, 5, 6, 7, 8, 9] 2 = Inr [[0, 1, 2, 3, 4], [5, 6, 7, 8, 9]]
   \<and> epoch_size [0, 1, 2, 3, 4, 5, 6, 7, 8, 9] 2 3 = Inr 1
   \<and> (0::int) \<le> 0 \<and> (0::int) < 1
   \<and> (\<exists>x y. window [0, 1, 2, 3, 4, 5, 6, 7, 8, 9] 2 3 0 = Inr (x, y)
         \<and> int (length x) = 2 \<and> int (length y) = 2
         \<and> ptb_producer [0, 1, 2, 3, 4, 5, 6, 7, 8, 9] 2 3 0 = Inr (Some (x, y)))"
proof -
  have g: "data [0, 1, 2, 3, 4, 5, 6, 7, 8, 9] 2 = Inr [[0, 1, 2, 3, 4], [5, 6, 7, 8, 9]]"
    by code_simp
  have e: "epoch_size [0, 1, 2, 3, 4, 5, 6, 7, 8, 9] 2 3 = Inr 1"
    by code_simp
  have "\<exists>x y. window [0, 1, 2, 3, 4, 5, 6, 7, 8, 9] 2 3 0 = Inr (x, y)
         \<and> int (length x) = 2 \<and> int (length y) = 2
         \<and> ptb_producer [0, 1, 2, 3, 4, 5, 6, 7, 8, 9] 2 3 0 = Inr (Some (x, y))"
    using window_columns [OF _ _ g e, of 0] by fastforce
  then show ?thesis using g e by simp
qed

text \<open>
  Claim C4. For a positive \<^verbatim>\<open>batch_size\<close>: when \<^verbatim>\<open>epoch_size\<close> is positive,
  \<^verbatim>\<open>batch_len\<close> is at least \<^verbatim>\<open>num_steps + 1\<close>, every window index \<open>i\<close> from 0 to
  \<^verbatim>\<open>epoch_size - 1\<close> satisfies \<open>i * num_steps + num_steps + 1 \<le> batch_len\<close>, and, for a
  positive \<^verbatim>\<open>num_steps\<close>, both slices of every such window are accepted by the bounds
  check of the slice operation.
\<close>

theorem window_in_bounds:
  assumes "0 < batch_size"
    and "batch_len raw_data batch_size = Inr bl"
    and "epoch_size raw_data batch_size num_steps = Inr e"
    and "0 < e"
  shows "num_steps + 1 \<le> bl
    \<and> (\<forall>i. 0 \<le> i \<and> i < e \<longrightarrow> i * num_steps + num_steps + 1 \<le> bl)
    \<and> (0 < num_steps \<longrightarrow>
         (\<forall>i. 0 \<le> i \<and> i < e \<longrightarrow> (\<exists>x y. window raw_data batch_size num_steps i = Inr (x, y))))"
proof -
  note ok = batch_len_Inr [OF assms(2)]
  note ns32 = epoch_size_Inr(1) [OF assms(3)]
  have bl: "bl = int (length raw_data) div batch_size"
    using assms(2) batch_len_pos [OF assms(1) ok(3,1,2)] by simp
  have ns: "num_steps \<noteq> 0" using epoch_size_Inr(2) [OF assms(3)] .
  have e: "e = (bl - 1) div num_steps"
    using assms(3) epoch_size_pos [OF assms(1) ok(3,1,2) ns ns32] bl by simp
  have bl0: "0 \<le> bl" using assms(1) by (simp add: bl pos_imp_zdiv_nonneg_iff)
  have fits: "\<forall>i. 0 \<le> i \<and> i < e \<longrightarrow> i * num_steps + num_steps + 1 \<le> bl"
    using window_fits [OF bl0] e by blast
  then have first: "num_steps + 1 \<le> bl" using assms(4) by force
  obtain g where g: "data raw_data batch_size = Inr g"
    using data_pos [OF assms(1) ok(3,1,2)] by blast
  have "\<exists>x y. window raw_data batch_size num_steps i = Inr (x, y)"
    if "0 < num_steps" "0 \<le> i" "i < e" for i
    using window_ok [OF assms(1) that(1,2) _ g ns32] fits that(2,3) bl by blast
  then show ?thesis using fits first by blast
qed

text \<open>The same sequence with two steps: two windows, the second one ends in the last column.\<close>

theorem window_in_bounds_witness:
  "(0::int) < 2
   \<and> batch_len [0, 1, 2, 3, 4, 5, 6, 7, 8, 9] 2 = Inr 5
   \<and> epoch_size [0, 1, 2, 3, 4, 5, 6, 7, 8, 9] 2 2 = Inr 2
   \<and> (0::int) < 2 \<and> (2::int) + 1 \<le> 5 \<and> (1::int) * 2 + 2 + 1 \<le> 5
   \<and> (\<exists>x y. window [0, 1, 2, 3, 4, 5, 6, 7, 8, 9] 2 2 1 = Inr (x, y))"
proof -
  have b: "batch_len [0, 1, 2, 3, 4, 5, 6, 7, 8, 9] 2 = Inr 5"
    by code_simp
  have e: "epoch_size [0, 1, 2, 3, 4, 5, 6, 7, 8, 9] 2 2 = Inr 2"
    by code_simp
  have "\<exists>x y. window [0, 1, 2, 3, 4, 5, 6, 7, 8, 9] 2 2 1 = Inr (x, y)"
    using window_in_bounds [OF _ b e] by force
  then show ?thesis using b e by simp
qed

section \<open>Facts about counting, sorting and encoding\<close>

lemma map_of_counter_add:
  "map_of (counter_add al w) =
     (map_of al)(w \<mapsto> (case map_of al w of None \<Rightarrow> 1 | Some c \<Rightarrow> c + 1))"
  by (induction al w rule: counter_add.induct) (auto simp add: fun_eq_iff)

lemma keys_counter_add:
  "map fst (counter_add al w) = (if w \<in> set (map fst al) then map fst al else map fst al @ [w])"
  by (induction al w rule: counter_add.induct) auto

lemma Counter_snoc: "Counter (xs @ [x]) = counter_add (Counter xs) x"
  by (simp add: Counter_def)

lemma map_of_Counter:
  "map_of (Counter xs) w = (if w \<in> set xs then Some (count_list xs w) else None)"
proof (induction xs rule: rev_induct)
  case Nil
  show ?case by (simp add: Counter_def)
next
  case (snoc x xs)
  then show ?case
    by (auto simp add: Counter_snoc map_of_counter_add count_list_append)
qed

lemma distinct_keys_Counter: "distinct (map fst (Counter xs))"
proof (induction xs rule: rev_induct)
  case Nil
  show ?case by (simp add: Counter_def)
next
  case (snoc x xs)
  then show ?case by (simp add: Counter_snoc keys_counter_add)
qed

lemma keys_Counter: "set (map fst (Counter xs)) = set xs"
proof (induction xs rule: rev_induct)
  case Nil
  show ?case by (simp add: Counter_def)
next
  case (snoc x xs)
  then show ?case by (auto simp add: Counter_snoc keys_counter_add)
qed

lemma Counter_entry:
  assumes "p \<in> set (Counter xs)"
  shows "snd p = count_list xs (fst p)"
proof -
  have "map_of (Counter xs) (fst p) = Some (snd p)"
    using assms distinct_keys_Counter [of xs] map_of_eq_Some_iff [of "Counter xs" "fst p" "snd p"]
    by simp
  then show ?thesis by (simp add: map_of_Counter split: if_splits)
qed

lemma length_Counter: "length (Counter xs) = card (set xs)"
proof -
  have "length (Counter xs) = length (map fst (Counter xs))" by simp
  also have "\<dots> = card (set (map fst (Counter xs)))"
    using distinct_keys_Counter [of xs] by (simp only: distinct_card)
  finally show ?thesis by (simp only: keys_Counter)
qed

lemma update_fresh:
  "k \<notin> fst ` set al \<Longrightarrow> AList.update k v al = al @ [(k, v)]"
  by (induction al) auto

lemma dict_distinct:
  "distinct (map fst ps) \<Longrightarrow> dict ps = ps"
proof (induction ps rule: rev_induct)
  case Nil
  show ?case by (simp add: dict_def)
next
  case (snoc p ps)
  then have "dict ps = ps" and "fst p \<notin> fst ` set ps" by auto
  then show ?case by (cases p) (simp add: dict_def update_fresh)
qed

lemma inj_count_key: "inj count_key"
  by (auto simp add: inj_on_def count_key_def prod_eq_iff)

lemma sorted_pairs_facts:
  fixes xs :: "'a::linorder list"
  defines "cp \<equiv> sort_key count_key (Counter xs)"
  shows "set cp = set (Counter xs)"
    and "length cp = card (set xs)"
    and "distinct (map fst cp)"
    and "set (map fst cp) = set xs"
    and "sorted (map count_key cp)"
proof -
  show s: "set cp = set (Counter xs)" by (simp add: cp_def)
  show "length cp = card (set xs)" by (simp add: cp_def length_Counter)
  have "mset (map fst cp) = mset (map fst (Counter xs))"
    by (simp add: cp_def)
  then show "distinct (map fst cp)"
    using distinct_keys_Counter [of xs] mset_eq_imp_distinct_iff by blast
  show "set (map fst cp) = set xs"
    using keys_Counter [of xs] s by simp
  show "sorted (map count_key cp)" by (simp add: cp_def sorted_sort_key)
qed

lemma vocab_of_items_value:
  fixes items :: "('a::linorder \<times> nat) list"
  assumes "items \<noteq> []" and "distinct (map fst items)"
  shows "vocab_of_items items =
     Inr (zip (map fst (sort_key count_key items)) [0..<length items])"
proof -
  let ?cp = "sort_key count_key items"
  let ?ws = "map fst ?cp"
  have "length ?cp = length items" by simp
  then have ne: "?cp \<noteq> []" using assms(1) by (metis length_0_conv)
  have "mset ?ws = mset (map fst items)" by simp
  then have dw: "distinct ?ws" using assms(2) mset_eq_imp_distinct_iff by blast
  have "distinct (map fst (zip ?ws [0..<length ?ws]))" using dw by simp
  then have "dict (zip ?ws [0..<length ?ws]) = zip ?ws [0..<length ?ws]"
    by (rule dict_distinct)
  moreover have "vocab_of_items items = Inr (dict (zip ?ws [0..<length ?ws]))"
    unfolding vocab_of_items_def Let_def list.case_eq_if by (simp only: ne if_False)
  ultimately show ?thesis by simp
qed

lemma count_key_less:
  "count_key (u, cu) < count_key (v, cv) \<longleftrightarrow> cv < cu \<or> (cu = cv \<and> u < v)"
  by (auto simp add: count_key_def)

lemma vocab_of_Counter:
  fixes xs :: "'a::linorder list"
  assumes "xs \<noteq> []"
  shows "\<exists>d. vocab_of_items (Counter xs) = Inr d
     \<and> dom (map_of d) = set xs
     \<and> ran (map_of d) = {0..<card (set xs)}
     \<and> inj_on (map_of d) (set xs)
     \<and> length d = card (set xs)
     \<and> (\<forall>u v i j. map_of d u = Some i \<and> map_of d v = Some j \<longrightarrow>
          (i < j \<longleftrightarrow> count_list xs v < count_list xs u
                   \<or> (count_list xs u = count_list xs v \<and> u < v)))"
proof -
  let ?cp = "sort_key count_key (Counter xs)"
  let ?ws = "map fst ?cp"
  let ?n = "card (set xs)"
  let ?d = "zip ?ws [0..<?n]"
  note f = sorted_pairs_facts [of xs]
  have lw: "length ?ws = ?n" using f(2) by simp
  have "0 < ?n" using assms by (simp add: card_gt_0_iff)
  then have "Counter xs \<noteq> []" using length_Counter [of xs] by auto
  then have val: "vocab_of_items (Counter xs) = Inr ?d"
    using vocab_of_items_value [OF _ distinct_keys_Counter, of xs] by (simp add: length_Counter)
  have at: "map_of ?d (?ws ! i) = Some i" if "i < ?n" for i
    using map_of_zip_nth [of ?ws "[0..<?n]" i] lw f(3) that by simp
  have ex: "\<exists>i < ?n. u = ?ws ! i \<and> k = i" if "map_of ?d u = Some k" for u k
  proof -
    have "(u, k) \<in> set ?d" using that by (rule map_of_SomeD)
    then obtain i where "i < length ?d" "?d ! i = (u, k)" by (auto simp add: in_set_conv_nth)
    then show ?thesis using lw by auto
  qed
  have dom: "dom (map_of ?d) = set xs"
    using lw f(4) by (simp add: dom_map_of_zip)
  have ran: "ran (map_of ?d) = {0..<?n}"
    using lw f(3) by (simp add: ran_map_of_zip)
  have inj: "inj_on (map_of ?d) (set xs)"
  proof (rule inj_onI)
    fix u v assume "u \<in> set xs" "v \<in> set xs" and eq: "map_of ?d u = map_of ?d v"
    then have "u \<in> dom (map_of ?d)" using dom by simp
    then obtain k where k: "map_of ?d u = Some k" by auto
    then have "map_of ?d v = Some k" using eq by simp
    then show "u = v" using ex k by blast
  qed
  have key: "count_key (?cp ! i) = count_key (?ws ! i, count_list xs (?ws ! i))" if "i < ?n" for i
  proof -
    have "?cp ! i \<in> set (Counter xs)" using that f(1,2) nth_mem [of i ?cp] by simp
    then have "snd (?cp ! i) = count_list xs (fst (?cp ! i))" by (rule Counter_entry)
    moreover have "?ws ! i = fst (?cp ! i)" using that f(2) by simp
    ultimately show ?thesis by (simp add: count_key_def)
  qed
  have mono: "count_key (?cp ! i) < count_key (?cp ! j)" if "i < j" "j < ?n" for i j
  proof -
    have "map count_key ?cp ! i \<le> map count_key ?cp ! j"
      using sorted_nth_mono [OF f(5), of i j] that f(2) by simp
    then have "count_key (?cp ! i) \<le> count_key (?cp ! j)" using that f(2) by simp
    moreover have "(?ws ! i = ?ws ! j) = (i = j)"
      using that by (intro nth_eq_iff_index_eq [OF f(3)]) (simp_all add: length_Counter)
    then have "?ws ! i \<noteq> ?ws ! j" using that by simp
    then have "count_key (?cp ! i) \<noteq> count_key (?cp ! j)"
      using key [of i] key [of j] that by (auto simp add: count_key_def)
    ultimately show ?thesis by simp
  qed
  have order: "\<forall>u v i j. map_of ?d u = Some i \<and> map_of ?d v = Some j \<longrightarrow>
          (i < j \<longleftrightarrow> count_list xs v < count_list xs u
                   \<or> (count_list xs u = count_list xs v \<and> u < v))"
  proof (intro allI impI)
    fix u v i j assume h: "map_of ?d u = Some i \<and> map_of ?d v = Some j"
    then have i: "i < ?n" "u = ?ws ! i" and j: "j < ?n" "v = ?ws ! j" using ex by blast+
    have "i < j \<longleftrightarrow> count_key (?cp ! i) < count_key (?cp ! j)"
    proof
      assume "i < j" then show "count_key (?cp ! i) < count_key (?cp ! j)" using mono j by simp
    next
      assume lt: "count_key (?cp ! i) < count_key (?cp ! j)"
      show "i < j"
      proof (rule ccontr)
        assume "\<not> i < j"
        then consider "i = j" | "j < i" by linarith
        then show False
        proof cases
          case 1 then show False using lt by simp
        next
          case 2 then show False using mono [of j i] i lt by simp
        qed
      qed
    qed
    then show "i < j \<longleftrightarrow> count_list xs v < count_list xs u
                   \<or> (count_list xs u = count_list xs v \<and> u < v)"
      using key [OF i(1)] key [OF j(1)] i(2) j(2) by (simp add: count_key_less)
  qed
  have "length ?d = ?n" using lw by simp
  then show ?thesis using val dom ran inj order by blast
qed

lemma getitem_contains: "contains d w \<Longrightarrow> getitem d w = Inr (the (map_of d w))"
  by (auto simp add: contains_def getitem_def)

lemma encode_eq:
  "encode d ws = Inr (map (\<lambda>w. the (map_of d w)) (filter (\<lambda>w. map_of d w \<noteq> None) ws))"
proof (induction ws)
  case Nil
  show ?case by simp
next
  case (Cons w ws)
  show ?case
  proof (cases "contains d w")
    case True
    then show ?thesis using Cons by (simp add: getitem_contains) (simp add: contains_def)
  next
    case False
    then show ?thesis using Cons by (simp add: contains_def)
  qed
qed

section \<open>Properties of the vocabulary builder and of encoding\<close>

text \<open>
  Claim C6, amended. For every training text with at least one token the vocabulary
  builder returns a dictionary: the counter holds, for every token of the text, the
  exact number of its occurrences and nothing else; the keys of the dictionary are the
  tokens of the text; the ids are exactly \<open>0, ..., N - 1\<close>, where \<open>N\<close> is the number of
  distinct tokens, no two tokens share an id, and the dictionary has \<open>N\<close> entries; and a
  token has a smaller id than another one exactly when it is more frequent, or as
  frequent and smaller in the order of strings, which is the order of the sort key
  \<^verbatim>\<open>(-count, token)\<close>.
\<close>

theorem build_vocab_ids:
  assumes "fs filename = Inr text" and "words_of text \<noteq> []"
  shows "\<exists>d. build_vocab fs filename = Inr d
     \<and> (\<forall>w. map_of (Counter (words_of text)) w =
            (if w \<in> set (words_of text) then Some (count_list (words_of text) w) else None))
     \<and> dom (map_of d) = set (words_of text)
     \<and> ran (map_of d) = {0..<card (set (words_of text))}
     \<and> inj_on (map_of d) (set (words_of text))
     \<and> length d = card (set (words_of text))
     \<and> (\<forall>u v i j. map_of d u = Some i \<and> map_of d v = Some j \<longrightarrow>
          (i < j \<longleftrightarrow> count_list (words_of text) v < count_list (words_of text) u
                   \<or> (count_list (words_of text) u = count_list (words_of text) v \<and> u < v)))"
proof -
  have "build_vocab fs filename = vocab_of_items (Counter (words_of text))"
    using assms(1) by (simp add: build_vocab_def read_words_def)
  then show ?thesis
    using vocab_of_Counter [OF assms(2)] map_of_Counter [of "words_of text"] by simp
qed

text \<open>The text \<open>b a b\<close>: two tokens, \<open>b\<close> twice.\<close>

theorem build_vocab_ids_witness:
  "(\<lambda>path. Inr ''b a b'') ''ptb.train.txt'' = (Inr ''b a b'' :: string result)
   \<and> words_of ''b a b'' \<noteq> []
   \<and> (\<exists>d. build_vocab (\<lambda>path. Inr ''b a b'') ''ptb.train.txt'' = Inr d
         \<and> dom (map_of d) = {''a'', ''b''}
         \<and> ran (map_of d) = {0..<2}
         \<and> length d = 2)"
proof -
  have w: "words_of ''b a b'' = [''b'', ''a'', ''b'']" by code_simp
  have s: "set (words_of ''b a b'') = {''a'', ''b''}" by (auto simp add: w)
  have c: "card (set (words_of ''b a b'')) = 2" by (simp add: s)
  have ne: "words_of ''b a b'' \<noteq> []" by (simp add: w)
  show ?thesis
    using build_vocab_ids [of "\<lambda>path. Inr ''b a b''" "''ptb.train.txt''" "''b a b''", OF _ ne]
    unfolding c s using ne by auto
qed

text \<open>
  The claim as stated, for every training text, fails on the empty text: there is no
  count pair to unpack, and the builder raises \<^verbatim>\<open>ValueError\<close> instead of returning a
  dictionary.
\<close>

theorem build_vocab_empty_counterexample:
  "words_of [] = [] \<and> build_vocab (\<lambda>path. Inr []) ''ptb.train.txt'' = Inl ValueError"
  by code_simp

text \<open>
  Claim C7. Building is deterministic although a dictionary is enumerated in an order
  of its own: whatever the order in which the items of the counter are listed, the
  builder returns the same result, that of \<open>build_vocab\<close>; and encoding a file depends
  on the vocabulary only through its mapping from tokens to ids, so two encodings of the
  same file with the same vocabulary are the same sequence of ids.
\<close>

theorem build_and_encode_deterministic:
  assumes "fs filename = Inr text"
    and "mset items1 = mset (Counter (words_of text))"
    and "mset items2 = mset (Counter (words_of text))"
    and "map_of d1 = map_of d2"
  shows "vocab_of_items items1 = build_vocab fs filename
     \<and> vocab_of_items items2 = vocab_of_items items1
     \<and> file_to_word_ids fs path d1 = file_to_word_ids fs path d2"
proof -
  have b: "build_vocab fs filename = vocab_of_items (Counter (words_of text))"
    using assms(1) by (simp add: build_vocab_def read_words_def)
  have same: "sort_key count_key its = sort_key count_key (Counter (words_of text))"
    if "mset its = mset (Counter (words_of text))" for its :: "(string \<times> nat) list"
    using that inj_count_key by (intro sort_key_eq_sort_key) (auto intro: inj_on_subset)
  have "vocab_of_items items1 = vocab_of_items (Counter (words_of text))"
    using same [OF assms(2)] by (simp add: vocab_of_items_def)
  moreover have "vocab_of_items items2 = vocab_of_items (Counter (words_of text))"
    using same [OF assms(3)] by (simp add: vocab_of_items_def)
  moreover have "file_to_word_ids fs path d1 = file_to_word_ids fs path d2"
    using assms(4) by (simp add: file_to_word_ids_def encode_eq)
  ultimately show ?thesis using b by simp
qed

text \<open>The text \<open>b a b\<close>, its two count pairs in both orders, and a vocabulary stored in both orders.\<close>

theorem build_and_encode_deterministic_witness:
  "(\<lambda>path. Inr ''b a b'') ''ptb.train.txt'' = (Inr ''b a b'' :: string result)
   \<and> mset [(''a'', 1), (''b'', 2)] = mset (Counter (words_of ''b a b''))
   \<and> mset [(''b'', 2), (''a'', 1)] = mset (Counter (words_of ''b a b''))
   \<and> map_of [(''b'', 0 :: nat), (''a'', 1)] = map_of [(''a'', 1), (''b'', 0)]
   \<and> vocab_of_items [(''a'', 1), (''b'', 2)] = build_vocab (\<lambda>path. Inr ''b a b'') ''ptb.train.txt''
   \<and> vocab_of_items [(''b'', 2), (''a'', 1)] = vocab_of_items [(''a'', 1), (''b'', 2)]
   \<and> file_to_word_ids (\<lambda>path. Inr ''b a b'') ''ptb.valid.txt'' [(''b'', 0), (''a'', 1)]
       = file_to_word_ids (\<lambda>path. Inr ''b a b'') ''ptb.valid.txt'' [(''a'', 1), (''b'', 0)]"
proof -
  have c: "Counter (words_of ''b a b'') = [(''b'', 2), (''a'', 1)]" by code_simp
  have m1: "mset [(''a'', 1), (''b'', 2)] = mset (Counter (words_of ''b a b''))"
    by (simp add: c)
  have m2: "mset [(''b'', 2), (''a'', 1)] = mset (Counter (words_of ''b a b''))"
    by (simp add: c)
  have d: "map_of [(''b'', 0 :: nat), (''a'', 1)] = map_of [(''a'', 1), (''b'', 0)]"
    by (auto simp add: fun_eq_iff)
  show ?thesis
    using build_and_encode_deterministic
      [of "\<lambda>path. Inr ''b a b''" "''ptb.train.txt''" "''b a b''", OF _ m1 m2 d, of "''ptb.valid.txt''"]
      m1 m2 d
    by simp
qed

text \<open>
  Claim C8. Encoding a file against any vocabulary never raises \<^verbatim>\<open>KeyError\<close>: when the
  file can be read, the result is the list of the ids of those tokens of the file, in
  the order of the file, that are keys of the vocabulary; the other tokens are left out
  and no id stands for them.
\<close>

theorem file_to_word_ids_filters:
  "file_to_word_ids fs filename word_to_id =
     and_then (fs filename) (\<lambda>text.
       Inr (map (\<lambda>w. the (map_of word_to_id w))
              (filter (\<lambda>w. map_of word_to_id w \<noteq> None) (words_of text))))"
  by (cases "fs filename") (simp_all add: file_to_word_ids_def read_words_def encode_eq)

text \<open>
  Claim C9. With a level that is neither \<^verbatim>\<open>"word"\<close> nor \<^verbatim>\<open>"char"\<close>, \<^verbatim>\<open>ptb_raw_data\<close>
  raises its \<^verbatim>\<open>Exception("Unknown level")\<close> and returns no data, whatever the files are.
\<close>

theorem ptb_raw_data_unknown_level:
  assumes "level \<noteq> ''word''" and "level \<noteq> ''char''"
  shows "ptb_raw_data fs data_path level = Inl UnknownLevel"
  using assms by (simp add: ptb_raw_data_def)

text \<open>The level \<open>byte\<close>.\<close>

theorem ptb_raw_data_unknown_level_witness:
  "''byte'' \<noteq> ''word'' \<and> ''byte'' \<noteq> ''char''
   \<and> ptb_raw_data (\<lambda>path. Inr ''a b'') ''data'' ''byte'' = Inl UnknownLevel"
  using ptb_raw_data_unknown_level [of "''byte''" "\<lambda>path. Inr ''a b''" "''data''"] by simp

section \<open>Facts about replacing and splitting\<close>

lemma py_replace_Nil: "old \<noteq> [] \<Longrightarrow> py_replace old new [] = []"
  by (subst py_replace.simps) simp

lemma py_replace_match:
  "old \<noteq> [] \<Longrightarrow> s \<noteq> [] \<Longrightarrow> take (length old) s = old \<Longrightarrow>
   py_replace old new s = new @ py_replace old new (drop (length old) s)"
  by (subst py_replace.simps) simp

lemma py_replace_skip:
  "old \<noteq> [] \<Longrightarrow> take (length old) (c # cs) \<noteq> old \<Longrightarrow>
   py_replace old new (c # cs) = c # py_replace old new cs"
  by (subst py_replace.simps) simp

lemma py_replace_char:
  "py_replace [x] new s = concat (map (\<lambda>c. if c = x then new else [c]) s)"
proof (induction s)
  case Nil
  show ?case by (simp add: py_replace_Nil)
next
  case (Cons c cs)
  show ?case
  proof (cases "c = x")
    case True
    then show ?thesis using Cons py_replace_match [of "[x]" "c # cs" new] by simp
  next
    case False
    then show ?thesis using Cons py_replace_skip [of "[x]" c cs new] by simp
  qed
qed

lemma py_replace_char_append:
  "py_replace [x] new (a @ b) = py_replace [x] new a @ py_replace [x] new b"
  by (simp add: py_replace_char)

lemma py_replace_char_absent:
  "x \<notin> set s \<Longrightarrow> py_replace [x] new s = s"
  by (induction s) (auto simp add: py_replace_char)

lemma take_eq_imp_le:
  assumes "take n u = old" and "length old = n"
  shows "n \<le> length u"
proof -
  have "length (take n u) = n" using assms by simp
  then show ?thesis by (simp add: min_def split: if_splits)
qed

lemma py_replace_append_match:
  assumes old: "old \<noteq> []"
    and apart: "\<And>w. w \<noteq> [] \<Longrightarrow> take (length old) w \<noteq> old \<Longrightarrow>
                  take (length old) (w @ old @ v) \<noteq> old"
  shows "py_replace old new (u @ old @ v) = py_replace old new u @ new @ py_replace old new v"
proof (induction u rule: length_induct)
  case (1 u)
  let ?n = "length old"
  show ?case
  proof (cases u)
    case Nil
    have "py_replace old new (old @ v) = new @ py_replace old new (drop ?n (old @ v))"
      using old by (intro py_replace_match) simp_all
    then show ?thesis using Nil old by (simp add: py_replace_Nil)
  next
    case (Cons c cs)
    then have ne: "u \<noteq> []" by simp
    show ?thesis
    proof (cases "take ?n u = old")
      case True
      have len: "?n \<le> length u" using True by (rule take_eq_imp_le) simp
      have shorter: "length (drop ?n u) < length u" using ne old by simp
      have "py_replace old new (u @ old @ v)
          = new @ py_replace old new (drop ?n (u @ old @ v))"
        using old ne True len by (intro py_replace_match) simp_all
      also have "drop ?n (u @ old @ v) = drop ?n u @ old @ v" using len by simp
      also have "py_replace old new (drop ?n u @ old @ v)
          = py_replace old new (drop ?n u) @ new @ py_replace old new v"
        using "1" shorter by blast
      also have "new @ py_replace old new (drop ?n u) @ new @ py_replace old new v
          = py_replace old new u @ new @ py_replace old new v"
        using py_replace_match [OF old ne True, of new] by simp
      finally show ?thesis .
    next
      case False
      have no: "take ?n (c # (cs @ old @ v)) \<noteq> old"
        using apart [OF ne False] Cons by simp
      have "py_replace old new (u @ old @ v) = c # py_replace old new (cs @ old @ v)"
        using py_replace_skip [OF old no, of new] Cons by simp
      also have "py_replace old new (cs @ old @ v)
          = py_replace old new cs @ new @ py_replace old new v"
        using "1" Cons by simp
      also have "c # py_replace old new cs @ new @ py_replace old new v
          = py_replace old new u @ new @ py_replace old new v"
        using py_replace_skip [OF old, of c cs new] False Cons by simp
      finally show ?thesis .
    qed
  qed
qed

lemma eos_not_straddling:
  assumes "u \<noteq> []" and "take (length ''<eos>'') u \<noteq> ''<eos>''"
  shows "take (length ''<eos>'') (u @ ''<eos>'' @ v) \<noteq> ''<eos>''"
proof (cases "length ''<eos>'' \<le> length u")
  case True
  then show ?thesis using assms(2) by simp
next
  case False
  let ?n = "length u"
  have five: "length ''<eos>'' = 5" by simp
  have n: "0 < ?n" "?n < 5" using False assms(1) by simp_all
  show ?thesis
  proof
    assume eq: "take (length ''<eos>'') (u @ ''<eos>'' @ v) = ''<eos>''"
    have "take (length ''<eos>'') (u @ ''<eos>'' @ v) ! ?n = (u @ ''<eos>'' @ v) ! ?n"
      using n(2) unfolding five by (rule nth_take)
    also have "\<dots> = CHR ''<''" by (simp add: nth_append)
    finally have at: "''<eos>'' ! ?n = CHR ''<''" using eq by simp
    consider "?n = 1" | "?n = 2" | "?n = 3" | "?n = 4" using n by linarith
    then show False
    proof cases
      case 1 then show False using at by simp
    next
      case 2 then show False using at by simp
    next
      case 3 then show False using at by (simp add: numeral_3_eq_3)
    next
      case 4
      have "(4::nat) = Suc (Suc (Suc (Suc 0)))" by simp
      then show False using at 4 by simp
    qed
  qed
qed

lemma replace_eos_append:
  "py_replace ''<eos>'' new (u @ ''<eos>'' @ v) =
     py_replace ''<eos>'' new u @ new @ py_replace ''<eos>'' new v"
  by (rule py_replace_append_match) (simp, rule eos_not_straddling)

lemma filter_py_replace:
  assumes old: "old \<noteq> []" and o: "\<forall>c \<in> set old. \<not> P c" and n: "\<forall>c \<in> set new. \<not> P c"
  shows "filter P (py_replace old new s) = filter P s"
proof (induction s rule: length_induct)
  case (1 s)
  have fo: "filter P old = []" using o by (simp add: filter_empty_conv)
  have fn: "filter P new = []" using n by (simp add: filter_empty_conv)
  show ?case
  proof (cases s)
    case Nil
    then show ?thesis using old by (simp add: py_replace_Nil)
  next
    case (Cons c cs)
    then have ne: "s \<noteq> []" by simp
    show ?thesis
    proof (cases "take (length old) s = old")
      case True
      have "length (drop (length old) s) < length s" using ne old by simp
      then have ih: "filter P (py_replace old new (drop (length old) s))
          = filter P (drop (length old) s)"
        using "1" by blast
      have "filter P s = filter P (take (length old) s @ drop (length old) s)" by simp
      also have "\<dots> = filter P (drop (length old) s)"
        unfolding True filter_append fo by simp
      finally show ?thesis
        using py_replace_match [OF old ne True, of new] ih fn by simp
    next
      case False
      then have "py_replace old new s = c # py_replace old new cs"
        using py_replace_skip [OF old, of c cs new] Cons by simp
      then show ?thesis using "1" Cons by simp
    qed
  qed
qed

lemma replace_eos_head:
  assumes "py_replace ''<eos>'' ''+'' s = x # r" and "x \<noteq> CHR ''+''"
  shows "\<exists>s'. s = x # s' \<and> r = py_replace ''<eos>'' ''+'' s'"
proof (cases s)
  case Nil
  then show ?thesis using assms(1) by (simp add: py_replace_Nil)
next
  case (Cons c cs)
  show ?thesis
  proof (cases "take (length ''<eos>'') s = ''<eos>''")
    case True
    have "py_replace ''<eos>'' ''+'' s = ''+'' @ py_replace ''<eos>'' ''+'' (drop (length ''<eos>'') s)"
      using True Cons by (intro py_replace_match) simp_all
    then show ?thesis using assms by simp
  next
    case False
    then have "py_replace ''<eos>'' ''+'' s = c # py_replace ''<eos>'' ''+'' cs"
      using py_replace_skip [of "''<eos>''" c cs "''+''"] Cons by simp
    then show ?thesis using assms(1) Cons by simp
  qed
qed

lemma replace_eos_prefix:
  "py_replace ''<eos>'' ''+'' s = w @ r \<Longrightarrow> CHR ''+'' \<notin> set w \<Longrightarrow>
   \<exists>s'. s = w @ s' \<and> r = py_replace ''<eos>'' ''+'' s'"
proof (induction w arbitrary: s)
  case Nil
  then show ?case by simp
next
  case (Cons x w)
  then have "py_replace ''<eos>'' ''+'' s = x # (w @ r)" and "x \<noteq> CHR ''+''" by auto
  then obtain s1 where s1: "s = x # s1" "w @ r = py_replace ''<eos>'' ''+'' s1"
    using replace_eos_head by blast
  then obtain s' where "s1 = w @ s'" "r = py_replace ''<eos>'' ''+'' s'"
    using Cons.IH [of s1] Cons.prems(2) by auto
  then show ?case using s1 by simp
qed

lemma replace_eos_complete:
  "py_replace ''<eos>'' ''+'' s \<noteq> u @ ''<eos>'' @ v"
proof (induction s arbitrary: u rule: length_induct)
  case (1 s)
  show ?case
  proof
    assume eq: "py_replace ''<eos>'' ''+'' s = u @ ''<eos>'' @ v"
    show False
    proof (cases s)
      case Nil
      then show False using eq by (simp add: py_replace_Nil)
    next
      case (Cons c cs)
      show False
      proof (cases "take (length ''<eos>'') s = ''<eos>''")
        case True
        have short: "length (drop (length ''<eos>'') s) < length s" using Cons by simp
        have "py_replace ''<eos>'' ''+'' s
            = ''+'' @ py_replace ''<eos>'' ''+'' (drop (length ''<eos>'') s)"
          using True Cons by (intro py_replace_match) simp_all
        then have e2: "CHR ''+'' # py_replace ''<eos>'' ''+'' (drop (length ''<eos>'') s)
            = u @ ''<eos>'' @ v"
          using eq by simp
        then obtain u' where "u = CHR ''+'' # u'" by (cases u) auto
        then have "py_replace ''<eos>'' ''+'' (drop (length ''<eos>'') s) = u' @ ''<eos>'' @ v"
          using e2 by simp
        then show False using "1" short by blast
      next
        case False
        then have "py_replace ''<eos>'' ''+'' s = c # py_replace ''<eos>'' ''+'' cs"
          using py_replace_skip [of "''<eos>''" c cs "''+''"] Cons by simp
        then have e2: "c # py_replace ''<eos>'' ''+'' cs = u @ ''<eos>'' @ v" using eq by simp
        show False
        proof (cases u)
          case Nil
          then have c: "c = CHR ''<''" and "py_replace ''<eos>'' ''+'' cs = ''eos>'' @ v"
            using e2 by simp_all
          then obtain s' where "cs = ''eos>'' @ s'"
            using replace_eos_prefix [of cs "''eos>''" v] by auto
          then have "take (length ''<eos>'') s = ''<eos>''" using Cons c by simp
          then show False using False by simp
        next
          case (Cons x u')
          then have "py_replace ''<eos>'' ''+'' cs = u' @ ''<eos>'' @ v" using e2 by simp
          then show False using "1" \<open>s = c # cs\<close> by simp
        qed
      qed
    qed
  qed
qed

lemma split_from_no_space:
  "\<forall>c \<in> set w. \<not> isspace c \<Longrightarrow> t \<in> set (split_from w s) \<Longrightarrow>
   t \<noteq> [] \<and> (\<forall>c \<in> set t. \<not> isspace c)"
proof (induction s arbitrary: w)
  case Nil
  then show ?case by (cases "w = []") simp_all
next
  case (Cons a s)
  show ?case
  proof (cases "isspace a")
    case True
    show ?thesis
    proof (cases "w = []")
      case True
      then have "t \<in> set (split_from [] s)" using Cons.prems(2) \<open>isspace a\<close> by simp
      then show ?thesis using Cons.IH [of "[]"] by simp
    next
      case False
      then have "t = w \<or> t \<in> set (split_from [] s)"
        using Cons.prems(2) \<open>isspace a\<close> by simp
      then show ?thesis using Cons.IH [of "[]"] Cons.prems(1) False by auto
    qed
  next
    case False
    then have "t \<in> set (split_from (w @ [a]) s)" using Cons.prems(2) by simp
    moreover have "\<forall>c \<in> set (w @ [a]). \<not> isspace c" using Cons.prems(1) False by simp
    ultimately show ?thesis using Cons.IH [of "w @ [a]"] by blast
  qed
qed

lemma words_of_no_space:
  "t \<in> set (words_of text) \<Longrightarrow> t \<noteq> [] \<and> (\<forall>c \<in> set t. \<not> isspace c)"
  using split_from_no_space [of "[]" t] by (simp add: words_of_def py_split_def)

lemma isspace_space: "isspace (CHR '' '')"
  by (simp add: isspace_def)

lemma chars_of_newline:
  "chars_of (a @ newline @ b) = chars_of a @ ''+'' @ chars_of b"
proof -
  have "py_replace newline ''<eos>'' (a @ newline @ b)
      = py_replace newline ''<eos>'' a @ ''<eos>'' @ py_replace newline ''<eos>'' b"
    by (simp add: newline_def py_replace_char)
  then show ?thesis by (simp only: chars_of_def replace_eos_append)
qed

lemma chars_of_eos:
  "chars_of (a @ ''<eos>'' @ b) = chars_of a @ ''+'' @ chars_of b"
proof -
  have "py_replace newline ''<eos>'' (a @ ''<eos>'' @ b)
      = py_replace newline ''<eos>'' a @ ''<eos>'' @ py_replace newline ''<eos>'' b"
    by (simp add: newline_def py_replace_char)
  then show ?thesis by (simp only: chars_of_def replace_eos_append)
qed

lemma chars_of_keeps:
  assumes "\<forall>c \<in> set ''<eos>+''. \<not> P c" and "\<forall>c \<in> set newline. \<not> P c"
  shows "filter P (chars_of text) = filter P text"
proof -
  have "filter P (chars_of text) = filter P (py_replace newline ''<eos>'' text)"
    unfolding chars_of_def using assms(1) by (intro filter_py_replace) simp_all
  also have "\<dots> = filter P text"
    using assms by (intro filter_py_replace) (simp_all add: newline_def)
  finally show ?thesis .
qed

lemma chars_of_no_eos: "chars_of text \<noteq> u @ ''<eos>'' @ v"
  unfolding chars_of_def by (rule replace_eos_complete)

lemma chars_of_no_newline: "set newline \<inter> set (chars_of text) = {}"
proof -
  have "filter (\<lambda>c. c \<in> set newline) (chars_of text)
      = filter (\<lambda>c. c \<in> set newline) (py_replace newline ''<eos>'' text)"
    unfolding chars_of_def by (intro filter_py_replace) (simp_all add: newline_def)
  also have "\<dots> = []"
    by (simp add: newline_def py_replace_char filter_empty_conv)
  finally show ?thesis by (auto simp add: filter_empty_conv)
qed

lemma count_list_filter: "count_list xs c = length (filter (\<lambda>x. x = c) xs)"
  by (induction xs) auto

section \<open>Properties of the character mode\<close>

text \<open>
  Claim C10. In character mode every line feed of the text and every \<open><eos>\<close> that the
  text already contains becomes the single character \<open>+\<close>: the text before and the
  text after the occurrence are converted on their own. No \<open><eos>\<close> and no line feed
  is left in the result. Every other character except \<open>+\<close> and the five characters of
  \<open><eos>\<close> is kept, in its place among those characters; in particular the space, which
  is whitespace, occurs as often in the result as in the text, and when the training
  text contains a space, the character vocabulary has the space as a key. In word mode no
  token contains whitespace, and no key of the word vocabulary contains a space.
\<close>

theorem char_mode_tokens:
  assumes "fs filename = Inr text"
  shows "chars_of (a @ newline @ b) = chars_of a @ ''+'' @ chars_of b
    \<and> chars_of (a @ ''<eos>'' @ b) = chars_of a @ ''+'' @ chars_of b
    \<and> (\<forall>u v. chars_of text \<noteq> u @ ''<eos>'' @ v)
    \<and> set newline \<inter> set (chars_of text) = {}
    \<and> filter (\<lambda>c. c \<notin> set ''<eos>+'' \<and> c \<notin> set newline) (chars_of text)
        = filter (\<lambda>c. c \<notin> set ''<eos>+'' \<and> c \<notin> set newline) text
    \<and> isspace (CHR '' '')
    \<and> count_list (chars_of text) (CHR '' '') = count_list text (CHR '' '')
    \<and> read_chars fs filename = Inr (chars_of text)
    \<and> (CHR '' '' \<in> set text \<longrightarrow>
          (\<exists>d. build_char fs filename = Inr d \<and> contains d (CHR '' '')))
    \<and> (\<forall>t \<in> set (words_of text). \<forall>c \<in> set t. \<not> isspace c)
    \<and> (\<forall>d t. build_vocab fs filename = Inr d \<and> contains d t \<longrightarrow> CHR '' '' \<notin> set t)"
proof -
  have keep: "filter (\<lambda>c. c \<notin> set ''<eos>+'' \<and> c \<notin> set newline) (chars_of text)
        = filter (\<lambda>c. c \<notin> set ''<eos>+'' \<and> c \<notin> set newline) text"
    by (rule chars_of_keeps) simp_all
  have fl: "filter (\<lambda>c. c = CHR '' '') (chars_of text) = filter (\<lambda>c. c = CHR '' '') text"
    by (rule chars_of_keeps) (simp_all add: newline_def)
  then have cnt: "count_list (chars_of text) (CHR '' '') = count_list text (CHR '' '')"
    by (simp add: count_list_filter)
  have rc: "read_chars fs filename = Inr (chars_of text)"
    using assms by (simp add: read_chars_def)
  have ch: "\<exists>d. build_char fs filename = Inr d \<and> contains d (CHR '' '')"
    if "CHR '' '' \<in> set text"
  proof -
    have "CHR '' '' \<in> set (filter (\<lambda>c. c = CHR '' '') text)" using that by simp
    then have "CHR '' '' \<in> set (filter (\<lambda>c. c = CHR '' '') (chars_of text))"
      by (simp only: fl)
    then have mem: "CHR '' '' \<in> set (chars_of text)" by simp
    then have "chars_of text \<noteq> []" by auto
    then obtain d where d: "vocab_of_items (Counter (chars_of text)) = Inr d"
      "dom (map_of d) = set (chars_of text)"
      using vocab_of_Counter [of "chars_of text"] by blast
    then have "contains d (CHR '' '')" using mem by (auto simp add: contains_def)
    then show ?thesis using d(1) rc by (simp add: build_char_def)
  qed
  have wd: "\<forall>t \<in> set (words_of text). \<forall>c \<in> set t. \<not> isspace c"
    using words_of_no_space by blast
  have voc: "CHR '' '' \<notin> set t" if "build_vocab fs filename = Inr d" "contains d t" for d t
  proof -
    have b: "vocab_of_items (Counter (words_of text)) = Inr d"
      using that(1) assms by (simp add: build_vocab_def read_words_def)
    have "words_of text \<noteq> []"
    proof
      assume "words_of text = []"
      then show False using b by (simp add: Counter_def vocab_of_items_def)
    qed
    then have "dom (map_of d) = set (words_of text)"
      using vocab_of_Counter [of "words_of text"] b by auto
    then have "t \<in> set (words_of text)" using that(2) by (auto simp add: contains_def)
    then show ?thesis using wd isspace_space by blast
  qed
  show ?thesis
    using chars_of_newline chars_of_eos chars_of_no_eos chars_of_no_newline keep isspace_space
      cnt rc ch wd voc
    by blast
qed

text \<open>The text \<open>a b\<close>, followed by a line feed or by \<open><eos>\<close> and the text \<open>c\<close>.\<close>

theorem char_mode_tokens_witness:
  "(\<lambda>path. Inr ''a b'') ''ptb.train.txt'' = (Inr ''a b'' :: string result)
   \<and> chars_of (''a b'' @ newline @ ''c'') = chars_of ''a b'' @ ''+'' @ chars_of ''c''
   \<and> chars_of (''a b'' @ ''<eos>'' @ ''c'') = chars_of ''a b'' @ ''+'' @ chars_of ''c''
   \<and> count_list (chars_of ''a b'') (CHR '' '') = count_list ''a b'' (CHR '' '')
   \<and> CHR '' '' \<in> set ''a b''
   \<and> (\<exists>d. build_char (\<lambda>path. Inr ''a b'') ''ptb.train.txt'' = Inr d \<and> contains d (CHR '' ''))"
  using char_mode_tokens [of "\<lambda>path. Inr ''a b''" "''ptb.train.txt''" "''a b''" "''a b''" "''c''"]
  by simp

end
